theory Spec2Isabelle
  imports Complex_Main
begin

section \<open>Python and numpy primitives used by skydict.py\<close>

text \<open>
  The exceptions that the modelled code paths of
  \<^verbatim>\<open>cogwheel/likelihood/marginalization/skydict.py\<close> can raise.
\<close>

datatype error = ValueError | IndexError | ZeroDivisionError

text \<open>
  Floating-point numbers are idealised as reals. \<^verbatim>\<open>np.rint\<close> rounds to the nearest
  integer, ties to the even one; \<^verbatim>\<open>_discretize\<close> is
  \<^verbatim>\<open>np.rint(delays * self.f_sampling).astype(int)\<close>.
\<close>

definition rint :: "real \<Rightarrow> int" where
  "rint x = (let f = \<lfloor>x\<rfloor>; r = x - of_int f in
     if r < 1 / 2 then f else if 1 / 2 < r then f + 1 else if even f then f else f + 1)"

definition discretize :: "int \<Rightarrow> real \<Rightarrow> int" where
  "discretize f_sampling delay = rint (delay * of_int f_sampling)"

text \<open>
  \<^verbatim>\<open>zip(*rows)\<close>: the columns of a list of rows, as many as the shortest row has
  entries; no rows give no columns.
\<close>

definition zip_star :: "'a list list \<Rightarrow> 'a list list" where
  "zip_star rows = (case rows of [] \<Rightarrow> []
     | r # rs \<Rightarrow> map (\<lambda>j. map (\<lambda>row. row ! j) rows)
                   [0..<fold (\<lambda>x m. min (length x) m) rs (length r)])"

text \<open>
  A \<^verbatim>\<open>collections.defaultdict(list)\<close> keeps its keys in insertion order; it is an
  association list with distinct keys. \<open>append_at m k i\<close> is \<^verbatim>\<open>m[k].append(i)\<close>.
\<close>

fun append_at :: "('k \<times> 'v list) list \<Rightarrow> 'k \<Rightarrow> 'v \<Rightarrow> ('k \<times> 'v list) list" where
  "append_at [] k i = [(k, [i])]"
| "append_at ((k', v) # m) k i =
     (if k' = k then (k', v @ [i]) # m else (k', v) # append_at m k i)"

text \<open>Reductions \<^verbatim>\<open>min\<close> and \<^verbatim>\<open>max\<close>: numpy raises ValueError on a zero-size array.\<close>

definition amin :: "int list \<Rightarrow> error + int" where
  "amin xs = (case xs of [] \<Rightarrow> Inl ValueError | x # r \<Rightarrow> Inr (fold min r x))"

definition amax :: "int list \<Rightarrow> error + int" where
  "amax xs = (case xs of [] \<Rightarrow> Inl ValueError | x # r \<Rightarrow> Inr (fold max r x))"

text \<open>\<^verbatim>\<open>np.min(a, axis=0)\<close> and \<^verbatim>\<open>np.max(a, axis=0)\<close> of the array of the dictionary's keys.\<close>

definition amin_axis0 :: "int list list \<Rightarrow> error + int list" where
  "amin_axis0 ks = (case ks of [] \<Rightarrow> Inl ValueError | k # r \<Rightarrow> Inr (fold (map2 min) r k))"

definition amax_axis0 :: "int list list \<Rightarrow> error + int list" where
  "amax_axis0 ks = (case ks of [] \<Rightarrow> Inl ValueError | k # r \<Rightarrow> Inr (fold (map2 max) r k))"

text \<open>The first error of a list of results, or all the values.\<close>

fun sequence :: "('e + 'a) list \<Rightarrow> 'e + 'a list" where
  "sequence [] = Inr []"
| "sequence (x # xs) = (case x of Inl e \<Rightarrow> Inl e
     | Inr v \<Rightarrow> (case sequence xs of Inl e \<Rightarrow> Inl e | Inr vs \<Rightarrow> Inr (v # vs)))"

subsection \<open>Dense arrays\<close>

text \<open>
  A numpy array is its shape and the contents of its cells; a cell is named by its
  coordinates, each below the size of its axis. numpy reads an integer index \<open>k\<close> on an
  axis of size \<open>n\<close> as the coordinate \<open>k\<close> when \<open>0 \<le> k < n\<close>, as \<open>k + n\<close> when
  \<open>- n \<le> k < 0\<close>, and raises IndexError otherwise. The keys of this program carry one
  index per axis.
\<close>

record 'a ndarray =
  shape :: "nat list"
  cells :: "nat list \<Rightarrow> 'a"

definition np_full :: "nat list \<Rightarrow> 'a \<Rightarrow> 'a ndarray" where
  "np_full shp v = \<lparr>shape = shp, cells = (\<lambda>c. v)\<rparr>"

definition norm_index :: "nat \<Rightarrow> int \<Rightarrow> nat option" where
  "norm_index n k = (if 0 \<le> k \<and> k < int n then Some (nat k)
     else if k < 0 \<and> - int n \<le> k then Some (nat (k + int n)) else None)"

fun norm_key :: "nat list \<Rightarrow> int list \<Rightarrow> nat list option" where
  "norm_key [] [] = Some []"
| "norm_key (n # ns) (k # ks) = (case norm_index n k of None \<Rightarrow> None
     | Some c \<Rightarrow> (case norm_key ns ks of None \<Rightarrow> None | Some cs \<Rightarrow> Some (c # cs)))"
| "norm_key ns ks = None"

definition setitem :: "'a ndarray \<Rightarrow> int list \<Rightarrow> 'a \<Rightarrow> error + 'a ndarray" where
  "setitem a key v = (case norm_key (shape a) key of None \<Rightarrow> Inl IndexError
     | Some c \<Rightarrow> Inr (a\<lparr>cells := (cells a)(c := v)\<rparr>))"

definition getitem :: "'a ndarray \<Rightarrow> int list \<Rightarrow> error + 'a" where
  "getitem a key = (case norm_key (shape a) key of None \<Rightarrow> Inl IndexError
     | Some c \<Rightarrow> Inr (cells a c))"

text \<open>
  A two-dimensional integer array of shape \<open>(d, n)\<close> is given by its \<open>n\<close> columns, each a
  list of \<open>d\<close> integers. \<^verbatim>\<open>a[tuple(delays[:, mask])]\<close> indexes the array \<open>a\<close> with one
  index array per axis: it addresses, for every selected column in order, the cell
  named by that column.
\<close>

definition take_cells :: "'a ndarray \<Rightarrow> int list list \<Rightarrow> error + nat list list" where
  "take_cells a keys = sequence (map (\<lambda>key. case norm_key (shape a) key of
     None \<Rightarrow> Inl IndexError | Some c \<Rightarrow> Inr c) keys)"

definition take_items :: "'a ndarray \<Rightarrow> int list list \<Rightarrow> error + 'a list" where
  "take_items a keys = (case take_cells a keys of Inl e \<Rightarrow> Inl e
     | Inr cs \<Rightarrow> Inr (map (cells a) cs))"

text \<open>Boolean-mask selection \<^verbatim>\<open>xs[mask]\<close>, and \<^verbatim>\<open>mask[mask] *= submask\<close>.\<close>

definition compress :: "bool list \<Rightarrow> 'a list \<Rightarrow> 'a list" where
  "compress msk xs = map snd (filter fst (zip msk xs))"

fun mask_imul :: "bool list \<Rightarrow> bool list \<Rightarrow> bool list" where
  "mask_imul [] s = []"
| "mask_imul (False # m) s = False # mask_imul m s"
| "mask_imul (True # m) (b # s) = b # mask_imul m s"
| "mask_imul (True # m) [] = True # mask_imul m []"

subsection \<open>Iterators\<close>

text \<open>
  The cells of \<^verbatim>\<open>_ind_generators\<close> hold iterator objects: the exhausted iterator
  \<^verbatim>\<open>iter(())\<close>, or \<^verbatim>\<open>itertools.cycle(inds)\<close> with the position of its cursor.
  \<open>next_gen\<close> is \<^verbatim>\<open>next\<close>: \<open>None\<close> stands for StopIteration.
\<close>

datatype gen = Exhausted | Cycle "nat list" nat

fun next_gen :: "gen \<Rightarrow> (nat \<times> gen) option" where
  "next_gen Exhausted = None"
| "next_gen (Cycle inds pos) =
     (if inds = [] then None else Some (inds ! pos, Cycle inds ((pos + 1) mod length inds)))"

text \<open>
  \<^verbatim>\<open>np.fromiter(map(next, generators), int)\<close> advances the iterators of the addressed
  cells one after the other. The iterators are objects shared by reference, so advancing
  one changes the cell that holds it; every populated cell holds an iterator of its own
  and the exhausted iterator has no state, so the state is kept per cell. A StopIteration
  raised by \<^verbatim>\<open>next\<close> ends the input of \<^verbatim>\<open>np.fromiter\<close>; the flag returned last
  records that it was raised.
\<close>

fun map_next :: "(nat list \<Rightarrow> gen) \<Rightarrow> nat list list \<Rightarrow> nat list \<times> (nat list \<Rightarrow> gen) \<times> bool" where
  "map_next G [] = ([], G, False)"
| "map_next G (c # cs) = (case next_gen (G c) of None \<Rightarrow> ([], G, True)
     | Some (i, g) \<Rightarrow> (case map_next (G(c := g)) cs of (inds, G', stop) \<Rightarrow> (i # inds, G', stop)))"

text \<open>\<^verbatim>\<open>itertools.permutations(xs, r)\<close>, in the order itertools yields them.\<close>

fun permutations :: "'a list \<Rightarrow> nat \<Rightarrow> 'a list list" where
  "permutations xs 0 = [[]]"
| "permutations xs (Suc r) = concat (map (\<lambda>i. map ((#) (xs ! i))
     (permutations (take i xs @ drop (Suc i) xs) r)) [0..<length xs])"

text \<open>
  \<^verbatim>\<open>np.histogramdd(sample, bins=edges, weights=weights)[0]\<close>: on every axis the bin of
  a value is the number of edges not above it, less one (the last edge belongs to the
  last bin); a sample with a value outside the edges is left out; a cell holds the sum
  of the weights of the samples in its bin.
\<close>

definition bin_index :: "real list \<Rightarrow> real \<Rightarrow> nat option" where
  "bin_index edges x =
     (let c = length (filter (\<lambda>e. e \<le> x) edges);
          c' = (if edges \<noteq> [] \<and> x = last edges then c - 1 else c)
      in if 1 \<le> c' \<and> c' + 1 \<le> length edges then Some (c' - 1) else None)"

definition sample_bin :: "real list list \<Rightarrow> int list \<Rightarrow> nat list option" where
  "sample_bin bins x = those (map2 bin_index bins (map of_int x))"

definition histogramdd :: "int list list \<Rightarrow> real list \<Rightarrow> real list list \<Rightarrow> real ndarray" where
  "histogramdd sample weights bins =
     \<lparr>shape = map (\<lambda>e. length e - 1) bins,
      cells = (\<lambda>c. sum_list (map snd (filter (\<lambda>(x, w). sample_bin bins x = Some c)
                                       (zip sample weights))))\<rparr>"

text \<open>\<^verbatim>\<open>np.linalg.norm(a, axis=(1, 2))\<close>: the Frobenius norm of every \<open>a[i]\<close>.\<close>

definition frobenius_norm :: "real list list \<Rightarrow> real" where
  "frobenius_norm m = sqrt (sum_list (map (\<lambda>x. x ^ 2) (concat m)))"

text \<open>
  Python's \<^verbatim>\<open>b ** e\<close> on integers (an integer for \<open>e \<ge> 0\<close>, a float otherwise), and
  the value \<^verbatim>\<open>f_sampling ** (n_det - 1) * len(inds) / nsky\<close> of a cell of the prior.
\<close>

definition py_pow :: "int \<Rightarrow> int \<Rightarrow> error + real" where
  "py_pow b e = (if 0 \<le> e then Inr (of_int (b ^ nat e))
     else if b = 0 then Inl ZeroDivisionError else Inr (1 / of_int (b ^ nat (- e))))"

definition prior_value :: "int \<Rightarrow> int \<Rightarrow> int \<Rightarrow> nat \<Rightarrow> error + real" where
  "prior_value f_sampling n_det nsky len =
     (case py_pow f_sampling (n_det - 1) of Inl e \<Rightarrow> Inl e
      | Inr p \<Rightarrow> if nsky = 0 then Inl ZeroDivisionError
                 else Inr (p * of_nat len / of_int nsky))"

section \<open>The class SkyDictionary\<close>

text \<open>
  The attributes of a \<^verbatim>\<open>SkyDictionary\<close>. The private attributes \<^verbatim>\<open>_min_delay\<close>,
  \<^verbatim>\<open>_max_delay\<close>, \<^verbatim>\<open>_ind_generators\<close> and \<^verbatim>\<open>_sky_prior\<close> are the fields \<open>min_delay\<close>,
  \<open>max_delay\<close>, \<open>ind_generators\<close> and \<open>dense_sky_prior\<close>. The dictionaries are association
  lists in insertion order.
\<close>

record skydict =
  detector_names :: "string list"
  nsky :: int
  f_sampling :: int
  sky_samples :: "(real \<times> real) list"
  fplus_fcross_0 :: "real list list list"
  geocenter_delay_first_det :: "real list"
  delays :: "real list list"
  delays2inds_map :: "(int list \<times> nat list) list"
  min_delay :: "int list"
  max_delay :: "int list"
  delays_bounds :: "(nat list \<times> int \<times> int) list"
  delays_prior :: "(nat list \<times> real ndarray) list"
  ind_generators :: "gen ndarray"
  dense_sky_prior :: "real ndarray"

subsection \<open>Construction\<close>

text \<open>
  \<^verbatim>\<open>_create_delays2inds_map\<close>: the keys are the columns of the discretized
  \<^verbatim>\<open>self.delays\<close>, each sample index is appended to the list of its key.
\<close>

definition create_delays2inds_map :: "int \<Rightarrow> real list list \<Rightarrow> (int list \<times> nat list) list" where
  "create_delays2inds_map f dls =
     fold (\<lambda>(i_sample, delays_key) m. append_at m delays_key i_sample)
       (enumerate 0 (zip_star (map (map (discretize f)) dls))) []"

text \<open>
  \<^verbatim>\<open>weights = np.linalg.norm(self.fplus_fcross_0, axis=(1, 2)) ** 3\<close>, computed once
  before the loop over the orderings of detectors.
\<close>

definition antenna_weights :: "real list list list \<Rightarrow> real list" where
  "antenna_weights fpfc = map (\<lambda>m. frobenius_norm m ^ 3) fpfc"

text \<open>
  \<^verbatim>\<open>self._discretize(geocenter_delays[order[1:],] - geocenter_delays[order[0]])\<close>:
  one row per later detector of the ordering.
\<close>

definition pairwise_delays :: "int \<Rightarrow> real list list \<Rightarrow> nat list \<Rightarrow> error + int list list" where
  "pairwise_delays f gd order =
     (if list_all (\<lambda>i. i < length gd) order
      then Inr (map (\<lambda>i. map2 (\<lambda>a b. discretize f (a - b)) (gd ! i) (gd ! hd order)) (tl order))
      else Inl IndexError)"

text \<open>The bin edges \<^verbatim>\<open>np.arange(lo, hi) + .5\<close>.\<close>

definition bin_edges :: "int \<Rightarrow> int \<Rightarrow> real list" where
  "bin_edges lo hi = map (\<lambda>k. of_int k + 1 / 2) [lo..hi - 1]"

text \<open>
  The body of the loop over the orderings: the histogram stored in
  \<^verbatim>\<open>delays_prior[order]\<close>, and the pair \<^verbatim>\<open>(pairwise_delays.min(), pairwise_delays.max())\<close>
  stored in \<^verbatim>\<open>delays_bounds[order]\<close> for the orderings of two detectors.
\<close>

definition delays_prior_entry ::
  "int \<Rightarrow> real list list \<Rightarrow> real list \<Rightarrow> nat list \<Rightarrow> error + (real ndarray \<times> (int \<times> int) option)" where
  "delays_prior_entry f gd weights order =
     (case pairwise_delays f gd order of Inl e \<Rightarrow> Inl e | Inr pd \<Rightarrow>
     (case sequence (map amin pd) of Inl e \<Rightarrow> Inl e | Inr mins \<Rightarrow>
     (case sequence (map amax pd) of Inl e \<Rightarrow> Inl e | Inr maxs \<Rightarrow>
     (let bins = map2 bin_edges (map (\<lambda>m. m - 1) mins) (map (\<lambda>m. m + 1) maxs);
          h = histogramdd (zip_star pd) weights bins
      in if length order = 2
         then (case amin (concat pd) of Inl e \<Rightarrow> Inl e | Inr lo \<Rightarrow>
              (case amax (concat pd) of Inl e \<Rightarrow> Inl e | Inr hi \<Rightarrow> Inr (h, Some (lo, hi))))
         else Inr (h, None)))))"

definition detector_orders :: "nat \<Rightarrow> nat list list" where
  "detector_orders n_det = concat (map (\<lambda>n_detectors. permutations [0..<n_det] n_detectors)
     [2..<n_det + 1])"

text \<open>The loops that fill the two dense arrays from the items of \<^verbatim>\<open>delays2inds_map\<close>.\<close>

fun fill_generators :: "(int list \<times> nat list) list \<Rightarrow> gen ndarray \<Rightarrow> error + gen ndarray" where
  "fill_generators [] a = Inr a"
| "fill_generators ((key, inds) # items) a =
     (case setitem a key (Cycle inds 0) of Inl e \<Rightarrow> Inl e
      | Inr a' \<Rightarrow> fill_generators items a')"

fun fill_sky_prior ::
  "int \<Rightarrow> int \<Rightarrow> int \<Rightarrow> (int list \<times> nat list) list \<Rightarrow> real ndarray \<Rightarrow> error + real ndarray" where
  "fill_sky_prior f n_det n [] a = Inr a"
| "fill_sky_prior f n_det n ((key, inds) # items) a =
     (case prior_value f n_det n (length inds) of Inl e \<Rightarrow> Inl e
      | Inr v \<Rightarrow> (case setitem a key v of Inl e \<Rightarrow> Inl e
                 | Inr a' \<Rightarrow> fill_sky_prior f n_det n items a'))"

text \<open>The shape \<^verbatim>\<open>self._max_delay - self._min_delay + 1\<close> of the dense arrays.\<close>

definition dense_shape :: "int list \<Rightarrow> int list \<Rightarrow> nat list" where
  "dense_shape mn mx = map2 (\<lambda>hi lo. nat (hi - lo + 1)) mx mn"

text \<open>
  The attributes that \<^verbatim>\<open>__init__\<close> assigns, in its order. When \<^verbatim>\<open>__init__\<close> raises,
  the model returns the error with the attributes assigned before it.
\<close>

datatype attribute = Sky_samples | Fplus_fcross_0 | Geocenter_delay_first_det | Delays
  | Delays2inds_map | Min_max_delay | Delays_prior | Ind_generators | Sky_prior

text \<open>
  \<^verbatim>\<open>SkyDictionary.__init__\<close>. The results of the calls that leave the repository's
  file are arguments: \<open>samples\<close> is what \<^verbatim>\<open>_create_sky_samples\<close> draws from
  \<^verbatim>\<open>scipy.stats.qmc.Halton\<close> (\<open>nsky\<close> pairs), \<open>fpfc\<close> what \<^verbatim>\<open>gw_utils.get_fplus_fcross_0\<close>
  returns (shape \<open>(nsky, n_det, 2)\<close>) and \<open>gd\<close> what \<^verbatim>\<open>gw_utils.get_geocenter_delays\<close>
  returns (\<open>n_det\<close> rows of \<open>nsky\<close> delays).
\<close>

definition init ::
  "string list \<Rightarrow> int \<Rightarrow> int \<Rightarrow> (real \<times> real) list \<Rightarrow> real list list list \<Rightarrow> real list list
     \<Rightarrow> (error \<times> attribute list) + skydict" where
  "init names f n samples fpfc gd =
     (case gd of [] \<Rightarrow> Inl (IndexError, [Sky_samples, Fplus_fcross_0])
      | g0 # rest \<Rightarrow>
     (let dls = map (\<lambda>row. map2 (-) row g0) rest;
          d2i = create_delays2inds_map f dls;
          built5 = [Sky_samples, Fplus_fcross_0, Geocenter_delay_first_det, Delays,
                    Delays2inds_map];
          orders = detector_orders (length names)
      in
     (case amin_axis0 (map fst d2i) of Inl e \<Rightarrow> Inl (e, built5) | Inr mn \<Rightarrow>
     (case amax_axis0 (map fst d2i) of Inl e \<Rightarrow> Inl (e, built5) | Inr mx \<Rightarrow>
     (case sequence (map (delays_prior_entry f gd (antenna_weights fpfc)) orders) of
        Inl e \<Rightarrow> Inl (e, built5 @ [Min_max_delay, Delays_prior])
      | Inr entries \<Rightarrow>
     (case fill_generators d2i (np_full (dense_shape mn mx) Exhausted) of
        Inl e \<Rightarrow> Inl (e, built5 @ [Min_max_delay, Delays_prior, Ind_generators])
      | Inr gens \<Rightarrow>
     (case fill_sky_prior f (int (length names)) n d2i (np_full (dense_shape mn mx) 0) of
        Inl e \<Rightarrow> Inl (e, built5 @ [Min_max_delay, Delays_prior, Ind_generators, Sky_prior])
      | Inr prior \<Rightarrow>
        Inr \<lparr>detector_names = names, nsky = n, f_sampling = f, sky_samples = samples,
             fplus_fcross_0 = fpfc, geocenter_delay_first_det = g0, delays = dls,
             delays2inds_map = d2i, min_delay = mn, max_delay = mx,
             delays_bounds = concat (map2 (\<lambda>order hb. (case snd hb of None \<Rightarrow> []
                                              | Some lohi \<Rightarrow> [(order, lohi)])) orders entries),
             delays_prior = zip orders (map fst entries),
             ind_generators = gens, dense_sky_prior = prior\<rparr>)))))))"

subsection \<open>Queries\<close>

text \<open>
  The result of \<^verbatim>\<open>get_sky_inds_and_prior\<close>. The field \<open>stop_iteration\<close> is not returned by
  the method: it records whether a \<^verbatim>\<open>next\<close> on a cell's iterator raised StopIteration.
\<close>

record query_result =
  sky_inds :: "nat list"
  sky_prior :: "real list"
  physical_mask :: "bool list"
  stop_iteration :: bool

text \<open>
  \<^verbatim>\<open>get_sky_inds_and_prior\<close>; \<open>dls\<close> are the columns of the argument \<^verbatim>\<open>delays\<close> of shape
  \<open>(n_det - 1, n_queries)\<close>. The method advances the iterators it reads: it returns the
  object with their new state.
\<close>

definition within_range :: "skydict \<Rightarrow> int list \<Rightarrow> bool" where
  "within_range self q = (list_all2 (\<le>) (min_delay self) q \<and> list_all2 (\<le>) q (max_delay self))"

definition get_sky_inds_and_prior :: "skydict \<Rightarrow> int list list \<Rightarrow> error + (query_result \<times> skydict)" where
  "get_sky_inds_and_prior self dls =
     (let physical_mask0 = map (within_range self) dls in
     (case take_items (dense_sky_prior self) (compress physical_mask0 dls) of
        Inl e \<Rightarrow> Inl e
      | Inr sky_prior0 \<Rightarrow>
     (let submask = map (\<lambda>p. 0 < p) sky_prior0;
          physical_mask1 = mask_imul physical_mask0 submask;
          sky_prior1 = compress submask sky_prior0
      in
     (case take_cells (ind_generators self) (compress physical_mask1 dls) of
        Inl e \<Rightarrow> Inl e
      | Inr cs \<Rightarrow>
     (case map_next (cells (ind_generators self)) cs of (inds, G, stop) \<Rightarrow>
        Inr (\<lparr>sky_inds = inds, sky_prior = sky_prior1, physical_mask = physical_mask1,
              stop_iteration = stop\<rparr>,
             self\<lparr>ind_generators := (ind_generators self)\<lparr>cells := G\<rparr>\<rparr>))))))"

text \<open>Calls of \<^verbatim>\<open>get_sky_inds_and_prior\<close> one after the other on the same object.\<close>

fun query_seq :: "skydict \<Rightarrow> int list list list \<Rightarrow> error + (query_result list \<times> skydict)" where
  "query_seq self [] = Inr ([], self)"
| "query_seq self (dls # calls) =
     (case get_sky_inds_and_prior self dls of Inl e \<Rightarrow> Inl e
      | Inr (r, self') \<Rightarrow> (case query_seq self' calls of Inl e \<Rightarrow> Inl e
          | Inr (rs, self'') \<Rightarrow> Inr (r # rs, self'')))"

section \<open>Notions used to state the properties\<close>

text \<open>
  The loop of \<^verbatim>\<open>_create_delays2inds_map\<close> from sample index \<open>n\<close> and dictionary \<open>m\<close> on,
  and the sample indices, from \<open>n\<close> on, of the keys equal to \<open>k\<close>.
\<close>

definition positions :: "nat \<Rightarrow> 'k list \<Rightarrow> 'k \<Rightarrow> nat list" where
  "positions n ks k = map fst (filter (\<lambda>ik. snd ik = k) (enumerate n ks))"

definition build :: "nat \<Rightarrow> 'k list \<Rightarrow> ('k \<times> nat list) list \<Rightarrow> ('k \<times> nat list) list" where
  "build n ks m = fold (\<lambda>(i, k) m. append_at m k i) (enumerate n ks) m"

text \<open>
  The discretized Relative Delay Vectors of the samples, in sample order, as
  \<^verbatim>\<open>_create_delays2inds_map\<close> computes them from the geocenter delays; and the condition that
  on each of the first \<open>d\<close> axes some key has a component \<open>\<le> 0\<close> and some key a component
  \<open>\<ge> - 1\<close>.
\<close>

definition sample_keys :: "int \<Rightarrow> real list list \<Rightarrow> int list list" where
  "sample_keys f gd =
     zip_star (map (map (discretize f)) (map (\<lambda>row. map2 (-) row (hd gd)) (tl gd)))"

definition spans_origin :: "int list list \<Rightarrow> nat \<Rightarrow> bool" where
  "spans_origin ks d =
     list_all (\<lambda>j. list_ex (\<lambda>k. k ! j \<le> 0) ks \<and> list_ex (\<lambda>k. - 1 \<le> k ! j) ks) [0..<d]"

text \<open>
  A small network: two detectors, four samples with discretized delays \<open>- 2, 0, 0, 1\<close> at
  sampling frequency 1.
\<close>

definition ex_names :: "string list" where "ex_names = [''H'', ''L'']"

definition ex_gd :: "real list list" where "ex_gd = [[0, 0, 0, 0], [- 2, 0, 0, 1]]"

definition ex_fpfc :: "real list list list" where
  "ex_fpfc = [[[1, 0], [0, 0]], [[1, 0], [0, 0]], [[1, 0], [0, 0]], [[1, 0], [0, 0]]]"

definition ex_samples :: "(real \<times> real) list" where "ex_samples = [(0, 0), (0, 0), (0, 0), (0, 0)]"

definition ex_sd :: skydict where
  "ex_sd = projr (init ex_names 1 4 ex_samples ex_fpfc ex_gd)"

text \<open>
  The state of the cell \<open>c\<close> that the key \<open>q\<close> addresses: an unpopulated cell holds prior 0
  and the exhausted iterator, a populated one the prior of its list and a cycle over it.
  An object is consistent when its two dense arrays have the shape of the Delay Range and
  every cell addressed by a key within the range is in that state.
\<close>

definition cell_state :: "skydict \<Rightarrow> int list \<Rightarrow> nat list \<Rightarrow> bool" where
  "cell_state sd q c =
     (case map_of (delays2inds_map sd) q of
        None \<Rightarrow> cells (dense_sky_prior sd) c = 0 \<and> cells (ind_generators sd) c = Exhausted
      | Some inds \<Rightarrow> inds \<noteq> []
          \<and> prior_value (f_sampling sd) (int (length (detector_names sd))) (nsky sd) (length inds)
              = Inr (cells (dense_sky_prior sd) c)
          \<and> (\<exists>p<length inds. cells (ind_generators sd) c = Cycle inds p))"

definition consistent :: "skydict \<Rightarrow> bool" where
  "consistent sd \<longleftrightarrow>
     length (min_delay sd) = length (max_delay sd)
   \<and> shape (ind_generators sd) = dense_shape (min_delay sd) (max_delay sd)
   \<and> shape (dense_sky_prior sd) = dense_shape (min_delay sd) (max_delay sd)
   \<and> (\<forall>j<length (max_delay sd). min_delay sd ! j \<le> 0 \<and> - 1 \<le> max_delay sd ! j)
   \<and> (\<forall>q c. within_range sd q \<longrightarrow>
         norm_key (dense_shape (min_delay sd) (max_delay sd)) q = Some c \<longrightarrow> cell_state sd q c)"

text \<open>
  Two ways to name the cell of a key: \<open>wrap_cell\<close> reduces every component of the key
  modulo the size of its axis, as numpy's reading of negative indices does;
  \<open>offset_cell\<close> follows the specification's words, the key minus the recorded elementwise
  minimum.
\<close>

definition wrap_cell :: "int list \<Rightarrow> int list \<Rightarrow> int list \<Rightarrow> nat list" where
  "wrap_cell mn mx q = map2 (\<lambda>k n. nat (k mod int n)) q (dense_shape mn mx)"

definition offset_cell :: "int list \<Rightarrow> int list \<Rightarrow> nat list" where
  "offset_cell mn q = map2 (\<lambda>k lo. nat (k - lo)) q mn"

text \<open>
  The value of the Dense Prior Array at a key; the test that \<^verbatim>\<open>get_sky_inds_and_prior\<close>
  applies to a query (within the Delay Range, and \<^verbatim>\<open>sky_prior > 0\<close>); an iterator that can
  be advanced; and two states of the same iterator.
\<close>

definition prior_at :: "skydict \<Rightarrow> int list \<Rightarrow> real" where
  "prior_at sd q = (case getitem (dense_sky_prior sd) q of Inl e \<Rightarrow> 0 | Inr v \<Rightarrow> v)"

definition selected :: "skydict \<Rightarrow> int list \<Rightarrow> bool" where
  "selected sd q = (within_range sd q \<and> 0 < prior_at sd q)"

definition live :: "gen \<Rightarrow> bool" where
  "live g = (case g of Exhausted \<Rightarrow> False | Cycle inds p \<Rightarrow> p < length inds)"

definition same_cycle :: "gen \<Rightarrow> gen \<Rightarrow> bool" where
  "same_cycle g g' = (case g of Exhausted \<Rightarrow> g' = Exhausted
     | Cycle inds p \<Rightarrow> (case g' of Exhausted \<Rightarrow> False
         | Cycle inds' p' \<Rightarrow> inds' = inds \<and> (p < length inds \<longrightarrow> p' < length inds)))"

text \<open>
  The cell of the dense arrays that a key addresses, and two objects that differ at most
  in the state of their iterators.
\<close>

definition cell_of :: "skydict \<Rightarrow> int list \<Rightarrow> nat list" where
  "cell_of sd q = the (norm_key (dense_shape (min_delay sd) (max_delay sd)) q)"

definition same_static :: "skydict \<Rightarrow> skydict \<Rightarrow> bool" where
  "same_static sd sd' = (sd'\<lparr>ind_generators := ind_generators sd\<rparr> = sd)"

text \<open>The attributes that \<^verbatim>\<open>__init__\<close> has assigned when it takes the minimum over the keys.\<close>

definition built_before_min :: "attribute list" where
  "built_before_min = [Sky_samples, Fplus_fcross_0, Geocenter_delay_first_det, Delays,
     Delays2inds_map]"

text \<open>
  The weight of a sample as the specification describes it for an ordering of detectors: the
  cube of the norm of the antenna coefficients of the detectors that the ordering names. It
  is used only to compare with the weights that \<^verbatim>\<open>__init__\<close> computes (\<open>antenna_weights\<close>).
\<close>

definition subset_weight :: "real list list \<Rightarrow> nat list \<Rightarrow> real" where
  "subset_weight m order = frobenius_norm (map ((!) m) order) ^ 3"

text \<open>
  A network of three detectors with one sample: all geocenter delays are 0 and the antenna
  coefficients of the sample are \<open>(3, 0)\<close>, \<open>(0, 0)\<close> and \<open>(4, 0)\<close>.
\<close>

definition ex3_names :: "string list" where "ex3_names = [''H'', ''L'', ''V'']"

definition ex3_gd :: "real list list" where "ex3_gd = [[0], [0], [0]]"

definition ex3_fpfc :: "real list list list" where "ex3_fpfc = [[[3, 0], [0, 0], [4, 0]]]"

definition ex3_sd :: skydict where
  "ex3_sd = projr (init ex3_names 1 1 [(0, 0)] ex3_fpfc ex3_gd)"

section \<open>The dictionary of sample indices\<close>

lemma rint_of_int: "rint (of_int k) = k"
  by (simp add: rint_def)

lemma discretize_of_int: "discretize f (of_int k) = k * f"
proof -
  have "discretize f (of_int k) = rint (of_int (k * f))"
    by (simp add: discretize_def)
  then show ?thesis by (simp only: rint_of_int)
qed

lemma fold_min_length:
  "fold (\<lambda>x m. min (length x) m) rs n = n" if "\<forall>r\<in>set rs. length r = n"
  using that by (induction rs) auto

lemma zip_star_rect:
  assumes "rows \<noteq> []" "\<forall>r\<in>set rows. length r = n"
  shows "zip_star rows = map (\<lambda>j. map (\<lambda>row. row ! j) rows) [0..<n]"
proof -
  obtain r rs where rows: "rows = r # rs" using assms(1) by (cases rows) auto
  have "length r = n" "\<forall>x\<in>set rs. length x = n" using assms(2) rows by auto
  then have "fold (\<lambda>x m. min (length x) m) rs (length r) = n"
    using fold_min_length[of rs n] by simp
  then show ?thesis by (simp add: zip_star_def rows)
qed

lemma zip_star_Nil: "zip_star [] = []"
  by (simp add: zip_star_def)

lemma map_fst_append_at:
  "map fst (append_at m k i) = (if k \<in> set (map fst m) then map fst m else map fst m @ [k])"
  by (induction m k i rule: append_at.induct) auto

lemma distinct_append_at:
  "distinct (map fst m) \<Longrightarrow> distinct (map fst (append_at m k i))"
  by (simp add: map_fst_append_at)

lemma map_of_append_at:
  "map_of (append_at m k i) k' =
     (if k' = k then Some ((case map_of m k of None \<Rightarrow> [] | Some v \<Rightarrow> v) @ [i]) else map_of m k')"
  by (induction m k i rule: append_at.induct) auto

lemma sum_length_append_at:
  "sum_list (map (\<lambda>kv. length (snd kv)) (append_at m k i)) = Suc (sum_list (map (\<lambda>kv. length (snd kv)) m))"
  by (induction m k i rule: append_at.induct) auto

lemma build_Nil: "build n [] m = m" by (simp add: build_def)

lemma build_Cons: "build n (k # ks) m = build (Suc n) ks (append_at m k n)"
  by (simp add: build_def)

lemma positions_Nil: "positions n [] k = []" by (simp add: positions_def)

lemma positions_Cons: "positions n (k' # ks) k = (if k' = k then n # positions (Suc n) ks k else positions (Suc n) ks k)"
  by (simp add: positions_def)

lemma map_of_build:
  "map_of (build n ks m) k =
     (if positions n ks k = [] then map_of m k
      else Some ((case map_of m k of None \<Rightarrow> [] | Some v \<Rightarrow> v) @ positions n ks k))"
  by (induction ks arbitrary: n m)
     (auto simp: build_Nil build_Cons positions_Nil positions_Cons map_of_append_at)

lemma distinct_build: "distinct (map fst m) \<Longrightarrow> distinct (map fst (build n ks m))"
  by (induction ks arbitrary: n m) (auto simp: build_Nil build_Cons distinct_append_at)

lemma set_fst_append_at: "fst ` set (append_at m k i) = insert k (fst ` set m)"
  using map_fst_append_at[of m k i] 
  by (metis (no_types, lifting) insert_absorb list.set_map list.simps(15) rotate1.simps(2) set_rotate1)

lemma set_keys_build: "fst ` set (build n ks m) = fst ` set m \<union> set ks"
  by (induction ks arbitrary: n m) (auto simp: build_Nil build_Cons set_fst_append_at)

lemma sum_length_build:
  "sum_list (map (\<lambda>kv. length (snd kv)) (build n ks m)) = length ks + sum_list (map (\<lambda>kv. length (snd kv)) m)"
  by (induction ks arbitrary: n m) (auto simp: build_Nil build_Cons sum_length_append_at)

lemma set_positions: "set (positions n ks k) = {i. n \<le> i \<and> i < n + length ks \<and> ks ! (i - n) = k}"
  by (auto simp: positions_def in_set_enumerate_eq image_iff)


lemma positions_filter_gen:
  "positions n ks k = filter (\<lambda>i. ks ! (i - n) = k) [n..<n + length ks]"
proof (induction ks arbitrary: n)
  case Nil
  then show ?case by (simp add: positions_Nil)
next
  case (Cons a ks)
  have up: "[n..<n + length (a # ks)] = n # [Suc n..<Suc n + length ks]"
    by (subst upt_rec) simp
  have nth: "(a # ks) ! (i - n) = ks ! (i - Suc n)" if "Suc n \<le> i" for i
  proof -
    have "i - n = Suc (i - Suc n)" using that by arith
    then show ?thesis by simp
  qed
  have "filter (\<lambda>i. (a # ks) ! (i - n) = k) [Suc n..<Suc n + length ks]
      = filter (\<lambda>i. ks ! (i - Suc n) = k) [Suc n..<Suc n + length ks]"
  proof (rule filter_cong[OF refl])
    fix x assume "x \<in> set [Suc n..<Suc n + length ks]"
    then have "Suc n \<le> x" by (simp only: set_upt atLeastLessThan_iff)
    then show "((a # ks) ! (x - n) = k) = (ks ! (x - Suc n) = k)" by (simp only: nth)
  qed
  then have IH': "positions (Suc n) ks k
      = filter (\<lambda>i. (a # ks) ! (i - n) = k) [Suc n..<Suc n + length ks]"
    using Cons.IH[of "Suc n"] by simp
  have "filter (\<lambda>i. (a # ks) ! (i - n) = k) (n # [Suc n..<Suc n + length ks])
      = (if a = k then n # positions (Suc n) ks k else positions (Suc n) ks k)"
    by (simp only: filter.simps IH') simp
  then show ?case
    by (simp only: up positions_Cons)
qed

lemma positions_eq_filter: "positions 0 ks k = filter (\<lambda>i. ks ! i = k) [0..<length ks]"
  using positions_filter_gen[of 0 ks k] by simp

lemma create_delays2inds_map_build:
  "create_delays2inds_map f dls = build 0 (zip_star (map (map (discretize f)) dls)) []"
  by (simp add: create_delays2inds_map_def build_def)

lemma length_zip_star_col: "q \<in> set (zip_star rows) \<Longrightarrow> length q = length rows"
  by (auto simp: zip_star_def split: list.splits)

lemma norm_index_neg:
  assumes "k < 0" "- int n \<le> k"
  shows "k mod int n = k + int n"
proof -
  have "(k + int n) mod int n = k mod int n" by simp
  moreover have "(k + int n) mod int n = k + int n"
    using assms by (intro mod_pos_pos_trivial) auto
  ultimately show ?thesis by simp
qed

lemma norm_index_mod:
  assumes "norm_index n k = Some c"
  shows "int c = k mod int n \<and> c < n"
proof (cases "0 \<le> k")
  case True
  then show ?thesis using assms by (auto simp: norm_index_def split: if_splits)
next
  case False
  then have k: "k < 0" "- int n \<le> k" "c = nat (k + int n)"
    using assms by (auto simp: norm_index_def split: if_splits)
  then show ?thesis using norm_index_neg[OF k(1,2)] by auto
qed

lemma norm_index_Some_iff:
  "(\<exists>c. norm_index n k = Some c) \<longleftrightarrow> (- int n \<le> k \<and> k < int n)"
  by (auto simp: norm_index_def)

lemma norm_index_in_range:
  assumes "lo \<le> 0" "- 1 \<le> hi" "lo \<le> k" "k \<le> hi"
  shows "norm_index (nat (hi - lo + 1)) k = Some (nat (k mod (hi - lo + 1)))"
proof -
  have b: "- int (nat (hi - lo + 1)) \<le> k \<and> k < int (nat (hi - lo + 1))"
    using assms by auto
  then obtain c where c: "norm_index (nat (hi - lo + 1)) k = Some c"
    using norm_index_Some_iff by blast
  have "int c = k mod (hi - lo + 1)"
    using norm_index_mod[OF c] assms by auto
  then have "c = nat (k mod (hi - lo + 1))" by linarith
  with c show ?thesis by simp
qed

lemma norm_index_inj:
  assumes "norm_index n k = Some c" "norm_index n k' = Some c" "\<bar>k - k'\<bar> < int n"
  shows "k = k'"
proof (rule ccontr)
  assume "k \<noteq> k'"
  then have pos: "0 < \<bar>k - k'\<bar>" by simp
  have "k mod int n = k' mod int n"
    using norm_index_mod[OF assms(1)] norm_index_mod[OF assms(2)] by simp
  then have "int n dvd (k - k')" by (simp add: mod_eq_dvd_iff)
  then have "int n dvd \<bar>k - k'\<bar>" by simp
  with zdvd_not_zless[OF pos assms(3)] show False by simp
qed


lemma init_InrE:
  assumes "init names f n samples fpfc gd = Inr sd"
  obtains g0 rest mn mx entries where
    "gd = g0 # rest"
    "delays2inds_map sd = create_delays2inds_map f (map (\<lambda>row. map2 (-) row g0) rest)"
    "amin_axis0 (map fst (delays2inds_map sd)) = Inr mn"
    "amax_axis0 (map fst (delays2inds_map sd)) = Inr mx"
    "min_delay sd = mn" "max_delay sd = mx"
    "sequence (map (delays_prior_entry f gd (antenna_weights fpfc))
       (detector_orders (length names))) = Inr entries"
    "delays_prior sd = zip (detector_orders (length names)) (map fst entries)"
    "fill_generators (delays2inds_map sd) (np_full (dense_shape mn mx) Exhausted)
       = Inr (ind_generators sd)"
    "fill_sky_prior f (int (length names)) n (delays2inds_map sd)
       (np_full (dense_shape mn mx) 0) = Inr (dense_sky_prior sd)"
    "detector_names sd = names" "nsky sd = n" "f_sampling sd = f" "fplus_fcross_0 sd = fpfc"
  using assms unfolding init_def Let_def
  by (auto split: list.splits sum.splits)

lemma sum_length_create:
  assumes "dls \<noteq> []" "\<forall>r\<in>set dls. length r = m"
  shows "sum_list (map (\<lambda>kv. length (snd kv)) (create_delays2inds_map f dls)) = m"
proof -
  have "zip_star (map (map (discretize f)) dls)
      = map (\<lambda>j. map (\<lambda>row. row ! j) (map (map (discretize f)) dls)) [0..<m]"
    using assms by (intro zip_star_rect) auto
  then have "length (zip_star (map (map (discretize f)) dls)) = m" by simp
  then show ?thesis
    by (simp add: create_delays2inds_map_build sum_length_build)
qed

lemma create_Nil: "create_delays2inds_map f [] = []"
  by (simp add: create_delays2inds_map_build zip_star_Nil build_Nil)

lemma amin_axis0_Inr: "amin_axis0 ks = Inr mn \<Longrightarrow> ks \<noteq> []"
  by (auto simp: amin_axis0_def)

lemma keys_create:
  "fst ` set (create_delays2inds_map f dls) = set (zip_star (map (map (discretize f)) dls))"
  by (simp add: create_delays2inds_map_build set_keys_build)

lemma length_zip_star_discretize:
  assumes "dls \<noteq> []" "\<forall>r\<in>set dls. length r = m"
  shows "length (zip_star (map (map (discretize f)) dls)) = m"
proof -
  have "zip_star (map (map (discretize f)) dls)
      = map (\<lambda>j. map (\<lambda>row. row ! j) (map (map (discretize f)) dls)) [0..<m]"
    using assms by (intro zip_star_rect) auto
  then show ?thesis by simp
qed

lemma sum_list_divide:
  "(\<Sum>kv\<leftarrow>m. real (length (snd kv)) / c) = real (sum_list (map (\<lambda>kv. length (snd kv)) m)) / c"
  by (induction m) (simp_all add: add_divide_distrib)

section \<open>Reductions over the keys\<close>

lemma fold_map2_min_nth:
  assumes "\<forall>q\<in>set r. length q = length acc" "j < length acc"
  shows "length (fold (map2 min) r acc) = length acc
       \<and> fold (map2 min) r acc ! j = fold min (map (\<lambda>q. q ! j) r) (acc ! j)"
  using assms
proof (induction r arbitrary: acc)
  case Nil
  then show ?case by simp
next
  case (Cons q r)
  have l: "length (map2 min q acc) = length acc" using Cons.prems by simp
  have "\<forall>x\<in>set r. length x = length (map2 min q acc)" using Cons.prems l by simp
  from Cons.IH[OF this] Cons.prems(2) l show ?case using Cons.prems by simp
qed

lemma fold_map2_max_nth:
  assumes "\<forall>q\<in>set r. length q = length acc" "j < length acc"
  shows "length (fold (map2 max) r acc) = length acc
       \<and> fold (map2 max) r acc ! j = fold max (map (\<lambda>q. q ! j) r) (acc ! j)"
  using assms
proof (induction r arbitrary: acc)
  case Nil
  then show ?case by simp
next
  case (Cons q r)
  have l: "length (map2 max q acc) = length acc" using Cons.prems by simp
  have "\<forall>x\<in>set r. length x = length (map2 max q acc)" using Cons.prems l by simp
  from Cons.IH[OF this] Cons.prems(2) l show ?case using Cons.prems by simp
qed

lemma fold_map2_length:
  assumes "\<forall>q\<in>set r. length q = length acc"
  shows "length (fold (map2 f) r acc) = length acc"
  using assms by (induction r arbitrary: acc) auto

lemma amin_axis0_nth:
  assumes "amin_axis0 ks = Inr mn" "\<forall>q\<in>set ks. length q = d"
  shows "length mn = d" and "j < d \<Longrightarrow> mn ! j = Min ((\<lambda>q. q ! j) ` set ks)" and "ks \<noteq> []"
proof -
  from assms(1) obtain k r where ks: "ks = k # r" and mn: "mn = fold (map2 min) r k"
    by (auto simp: amin_axis0_def split: list.splits)
  show "ks \<noteq> []" using ks by simp
  have len: "\<forall>q\<in>set r. length q = length k" "length k = d" using assms(2) ks by auto
  show "length mn = d" using fold_map2_length[OF len(1)] len(2) mn by simp
  assume "j < d"
  then have "mn ! j = fold min (map (\<lambda>q. q ! j) r) (k ! j)"
    using fold_map2_min_nth[OF len(1), of j] len(2) mn by simp
  also have "\<dots> = Min (set ((k ! j) # map (\<lambda>q. q ! j) r))"
    by (simp only: Min.set_eq_fold)
  finally show "mn ! j = Min ((\<lambda>q. q ! j) ` set ks)" using ks by simp
qed

lemma amax_axis0_nth:
  assumes "amax_axis0 ks = Inr mx" "\<forall>q\<in>set ks. length q = d"
  shows "length mx = d" and "j < d \<Longrightarrow> mx ! j = Max ((\<lambda>q. q ! j) ` set ks)"
proof -
  from assms(1) obtain k r where ks: "ks = k # r" and mx: "mx = fold (map2 max) r k"
    by (auto simp: amax_axis0_def split: list.splits)
  have len: "\<forall>q\<in>set r. length q = length k" "length k = d" using assms(2) ks by auto
  show "length mx = d" using fold_map2_length[OF len(1)] len(2) mx by simp
  assume "j < d"
  then have "mx ! j = fold max (map (\<lambda>q. q ! j) r) (k ! j)"
    using fold_map2_max_nth[OF len(1), of j] len(2) mx by simp
  also have "\<dots> = Max (set ((k ! j) # map (\<lambda>q. q ! j) r))"
    by (simp only: Max.set_eq_fold)
  finally show "mx ! j = Max ((\<lambda>q. q ! j) ` set ks)" using ks by simp
qed

lemma amin_axis0_total: "ks \<noteq> [] \<Longrightarrow> \<exists>mn. amin_axis0 ks = Inr mn"
  by (cases ks) (auto simp: amin_axis0_def)

lemma amax_axis0_total: "ks \<noteq> [] \<Longrightarrow> \<exists>mx. amax_axis0 ks = Inr mx"
  by (cases ks) (auto simp: amax_axis0_def)

section \<open>Keys as indices of the dense arrays\<close>

lemma norm_key_length: "norm_key shp k = Some c \<Longrightarrow> length k = length shp \<and> length c = length shp"
  by (induction shp k arbitrary: c rule: norm_key.induct) (auto split: option.splits)

lemma norm_key_nth:
  "norm_key shp k = Some c \<Longrightarrow> j < length shp \<Longrightarrow> norm_index (shp ! j) (k ! j) = Some (c ! j)"
proof (induction shp k arbitrary: c j rule: norm_key.induct)
  case (2 n ns k ks)
  then show ?case by (cases j) (auto split: option.splits)
qed simp_all

lemma norm_key_SomeI:
  assumes "length k = length shp" "\<forall>j<length shp. \<exists>c. norm_index (shp ! j) (k ! j) = Some c"
  shows "\<exists>c. norm_key shp k = Some c"
  using assms
proof (induction shp k rule: list_induct2')
  case 1
  then show ?case by simp
next
  case (2 x xs)
  then show ?case by simp
next
  case (3 y ys)
  then show ?case by simp
next
  case (4 x xs y ys)
  from 4(3) have "\<exists>c. norm_index x y = Some c" by fastforce
  moreover have "\<exists>c. norm_key xs ys = Some c"
  proof (rule 4(1))
    show "length ys = length xs" using 4(2) by simp
    show "\<forall>j<length xs. \<exists>c. norm_index (xs ! j) (ys ! j) = Some c"
      using 4(3) by fastforce
  qed
  ultimately show ?case by auto
qed

lemma dense_shape_nth:
  "length mn = length mx \<Longrightarrow> j < length mx \<Longrightarrow> dense_shape mn mx ! j = nat (mx ! j - mn ! j + 1)"
  by (simp add: dense_shape_def)

lemma length_dense_shape: "length mn = length mx \<Longrightarrow> length (dense_shape mn mx) = length mx"
  by (simp add: dense_shape_def)

lemma norm_key_inj_in_range:
  assumes c: "norm_key (dense_shape mn mx) k = Some c" "norm_key (dense_shape mn mx) k' = Some c"
    and len: "length mn = length mx"
    and r: "list_all2 (\<le>) mn k" "list_all2 (\<le>) k mx" "list_all2 (\<le>) mn k'" "list_all2 (\<le>) k' mx"
  shows "k = k'"
proof (rule nth_equalityI)
  have lk: "length k = length mx" "length k' = length mx"
    using r by (auto dest: list_all2_lengthD)
  then show "length k = length k'" by simp
  fix j assume "j < length k"
  then have j: "j < length mx" using lk by simp
  then have j': "j < length (dense_shape mn mx)" using len by (simp add: length_dense_shape)
  have a: "norm_index (nat (mx ! j - mn ! j + 1)) (k ! j) = Some (c ! j)"
    using norm_key_nth[OF c(1) j'] dense_shape_nth[OF len j] by simp
  have b: "norm_index (nat (mx ! j - mn ! j + 1)) (k' ! j) = Some (c ! j)"
    using norm_key_nth[OF c(2) j'] dense_shape_nth[OF len j] by simp
  have bounds: "mn ! j \<le> k ! j" "k ! j \<le> mx ! j" "mn ! j \<le> k' ! j" "k' ! j \<le> mx ! j"
    using r j lk len by (auto simp: list_all2_conv_all_nth)
  then have "\<bar>k ! j - k' ! j\<bar> < int (nat (mx ! j - mn ! j + 1))" by auto
  from norm_index_inj[OF a b this] show "k ! j = k' ! j" .
qed

subsection \<open>Filling the dense arrays\<close>

lemma fill_generators_Cons_Inr:
  assumes "fill_generators ((key, inds) # items) a = Inr a'"
  obtains c1 where "norm_key (shape a) key = Some c1"
    "fill_generators items (a\<lparr>cells := (cells a)(c1 := Cycle inds 0)\<rparr>) = Inr a'"
  using assms by (simp add: setitem_def split: option.splits)

lemma fill_generators_shape:
  "fill_generators items a = Inr a' \<Longrightarrow> shape a' = shape a"
proof (induction items arbitrary: a)
  case Nil
  then show ?case by simp
next
  case (Cons kv items)
  obtain key inds where kv: "kv = (key, inds)" by (cases kv)
  from Cons.prems obtain c1 where
    "fill_generators items (a\<lparr>cells := (cells a)(c1 := Cycle inds 0)\<rparr>) = Inr a'"
    unfolding kv by (rule fill_generators_Cons_Inr)
  from Cons.IH[OF this] show ?case by simp
qed

lemma fill_generators_keys:
  "fill_generators items a = Inr a' \<Longrightarrow> kv \<in> set items \<Longrightarrow> \<exists>c. norm_key (shape a) (fst kv) = Some c"
proof (induction items arbitrary: a)
  case Nil
  then show ?case by simp
next
  case (Cons kv0 items)
  obtain key inds where kv: "kv0 = (key, inds)" by (cases kv0)
  from Cons.prems(1) obtain c1 where c1: "norm_key (shape a) key = Some c1"
    and rest: "fill_generators items (a\<lparr>cells := (cells a)(c1 := Cycle inds 0)\<rparr>) = Inr a'"
    unfolding kv by (rule fill_generators_Cons_Inr)
  show ?case
  proof (cases "kv = kv0")
    case True
    then show ?thesis using c1 kv by simp
  next
    case False
    then have "kv \<in> set items" using Cons.prems(2) by simp
    from Cons.IH[OF rest this] show ?thesis by simp
  qed
qed

lemma fill_generators_other:
  "fill_generators items a = Inr a' \<Longrightarrow> \<forall>kv\<in>set items. norm_key (shape a) (fst kv) \<noteq> Some c
     \<Longrightarrow> cells a' c = cells a c"
proof (induction items arbitrary: a)
  case Nil
  then show ?case by simp
next
  case (Cons kv0 items)
  obtain key inds where kv: "kv0 = (key, inds)" by (cases kv0)
  from Cons.prems(1) obtain c1 where c1: "norm_key (shape a) key = Some c1"
    and rest: "fill_generators items (a\<lparr>cells := (cells a)(c1 := Cycle inds 0)\<rparr>) = Inr a'"
    unfolding kv by (rule fill_generators_Cons_Inr)
  have "c1 \<noteq> c" using Cons.prems(2) c1 kv by auto
  moreover have "cells a' c = cells (a\<lparr>cells := (cells a)(c1 := Cycle inds 0)\<rparr>) c"
    using Cons.IH[OF rest] Cons.prems(2) by simp
  ultimately show ?case by simp
qed

lemma fill_generators_at:
  assumes "fill_generators items a = Inr a'"
    and "distinct (map (\<lambda>kv. norm_key (shape a) (fst kv)) items)"
    and "(k, inds) \<in> set items" "norm_key (shape a) k = Some c"
  shows "cells a' c = Cycle inds 0"
  using assms
proof (induction items arbitrary: a)
  case Nil
  then show ?case by simp
next
  case (Cons kv0 items)
  obtain key ins where kv: "kv0 = (key, ins)" by (cases kv0)
  from Cons.prems(1) obtain c1 where c1: "norm_key (shape a) key = Some c1"
    and rest: "fill_generators items (a\<lparr>cells := (cells a)(c1 := Cycle ins 0)\<rparr>) = Inr a'"
    unfolding kv by (rule fill_generators_Cons_Inr)
  let ?a1 = "a\<lparr>cells := (cells a)(c1 := Cycle ins 0)\<rparr>"
  show ?case
  proof (cases "(k, inds) \<in> set items")
    case True
    have "distinct (map (\<lambda>kv. norm_key (shape ?a1) (fst kv)) items)"
      using Cons.prems(2) by simp
    from Cons.IH[OF rest this True] Cons.prems(4) show ?thesis by simp
  next
    case False
    then have eq: "key = k" "ins = inds" using Cons.prems(3) kv by auto
    then have cc: "c1 = c" using c1 Cons.prems(4) by simp
    have "\<forall>kv\<in>set items. norm_key (shape ?a1) (fst kv) \<noteq> Some c"
      using Cons.prems(2) c1 cc kv by (auto simp: image_iff)
    from fill_generators_other[OF rest this] show ?thesis using cc eq by simp
  qed
qed

lemma fill_generators_total:
  "\<forall>kv\<in>set items. \<exists>c. norm_key (shape a) (fst kv) = Some c \<Longrightarrow> \<exists>a'. fill_generators items a = Inr a'"
proof (induction items arbitrary: a)
  case Nil
  then show ?case by simp
next
  case (Cons kv0 items)
  obtain key ins where kv: "kv0 = (key, ins)" by (cases kv0)
  from Cons.prems obtain c1 where c1: "norm_key (shape a) key = Some c1" using kv by auto
  let ?a1 = "a\<lparr>cells := (cells a)(c1 := Cycle ins 0)\<rparr>"
  have "\<forall>kv\<in>set items. \<exists>c. norm_key (shape ?a1) (fst kv) = Some c" using Cons.prems by simp
  from Cons.IH[OF this] show ?case by (simp add: kv setitem_def c1)
qed

lemma fill_sky_prior_Cons_Inr:
  assumes "fill_sky_prior f nd n ((key, inds) # items) a = Inr a'"
  obtains v c1 where "prior_value f nd n (length inds) = Inr v" "norm_key (shape a) key = Some c1"
    "fill_sky_prior f nd n items (a\<lparr>cells := (cells a)(c1 := v)\<rparr>) = Inr a'"
  using assms by (simp add: setitem_def split: option.splits sum.splits)

lemma fill_sky_prior_shape:
  "fill_sky_prior f nd n items a = Inr a' \<Longrightarrow> shape a' = shape a"
proof (induction items arbitrary: a)
  case Nil
  then show ?case by simp
next
  case (Cons kv items)
  obtain key inds where kv: "kv = (key, inds)" by (cases kv)
  from Cons.prems obtain v c1 where
    "fill_sky_prior f nd n items (a\<lparr>cells := (cells a)(c1 := v)\<rparr>) = Inr a'"
    unfolding kv by (rule fill_sky_prior_Cons_Inr)
  from Cons.IH[OF this] show ?case by simp
qed

lemma fill_sky_prior_other:
  "fill_sky_prior f nd n items a = Inr a' \<Longrightarrow> \<forall>kv\<in>set items. norm_key (shape a) (fst kv) \<noteq> Some c
     \<Longrightarrow> cells a' c = cells a c"
proof (induction items arbitrary: a)
  case Nil
  then show ?case by simp
next
  case (Cons kv0 items)
  obtain key inds where kv: "kv0 = (key, inds)" by (cases kv0)
  from Cons.prems(1) obtain v c1 where c1: "norm_key (shape a) key = Some c1"
    and rest: "fill_sky_prior f nd n items (a\<lparr>cells := (cells a)(c1 := v)\<rparr>) = Inr a'"
    unfolding kv by (rule fill_sky_prior_Cons_Inr)
  have "c1 \<noteq> c" using Cons.prems(2) c1 kv by auto
  moreover have "cells a' c = cells (a\<lparr>cells := (cells a)(c1 := v)\<rparr>) c"
    using Cons.IH[OF rest] Cons.prems(2) by simp
  ultimately show ?case by simp
qed

lemma fill_sky_prior_at:
  assumes "fill_sky_prior f nd n items a = Inr a'"
    and "distinct (map (\<lambda>kv. norm_key (shape a) (fst kv)) items)"
    and "(k, inds) \<in> set items" "norm_key (shape a) k = Some c"
  shows "prior_value f nd n (length inds) = Inr (cells a' c)"
  using assms
proof (induction items arbitrary: a)
  case Nil
  then show ?case by simp
next
  case (Cons kv0 items)
  obtain key ins where kv: "kv0 = (key, ins)" by (cases kv0)
  from Cons.prems(1) obtain v c1 where v: "prior_value f nd n (length ins) = Inr v"
    and c1: "norm_key (shape a) key = Some c1"
    and rest: "fill_sky_prior f nd n items (a\<lparr>cells := (cells a)(c1 := v)\<rparr>) = Inr a'"
    unfolding kv by (rule fill_sky_prior_Cons_Inr)
  let ?a1 = "a\<lparr>cells := (cells a)(c1 := v)\<rparr>"
  show ?case
  proof (cases "(k, inds) \<in> set items")
    case True
    have "distinct (map (\<lambda>kv. norm_key (shape ?a1) (fst kv)) items)"
      using Cons.prems(2) by simp
    from Cons.IH[OF rest this True] Cons.prems(4) show ?thesis by simp
  next
    case False
    then have eq: "key = k" "ins = inds" using Cons.prems(3) kv by auto
    then have cc: "c1 = c" using c1 Cons.prems(4) by simp
    have "\<forall>kv\<in>set items. norm_key (shape ?a1) (fst kv) \<noteq> Some c"
      using Cons.prems(2) c1 cc kv by (auto simp: image_iff)
    from fill_sky_prior_other[OF rest this] show ?thesis using cc eq v by simp
  qed
qed

lemma fill_sky_prior_total:
  assumes "\<forall>kv\<in>set items. \<exists>c. norm_key (shape a) (fst kv) = Some c"
    and "\<forall>kv\<in>set items. \<exists>v. prior_value f nd n (length (snd kv)) = Inr v"
  shows "\<exists>a'. fill_sky_prior f nd n items a = Inr a'"
  using assms
proof (induction items arbitrary: a)
  case Nil
  then show ?case by simp
next
  case (Cons kv0 items)
  obtain key ins where kv: "kv0 = (key, ins)" by (cases kv0)
  from Cons.prems obtain c1 v where c1: "norm_key (shape a) key = Some c1"
    and v: "prior_value f nd n (length ins) = Inr v" using kv by auto
  let ?a1 = "a\<lparr>cells := (cells a)(c1 := v)\<rparr>"
  have "\<forall>kv\<in>set items. \<exists>c. norm_key (shape ?a1) (fst kv) = Some c" using Cons.prems by simp
  from Cons.IH[OF this] Cons.prems(2) show ?case by (simp add: kv setitem_def c1 v)
qed

lemma permutations_set:
  "p \<in> set (permutations xs r) \<Longrightarrow> set p \<subseteq> set xs \<and> length p = r"
proof (induction r arbitrary: xs p)
  case 0
  then show ?case by simp
next
  case (Suc r)
  from Suc.prems obtain i p' where i: "i < length xs" and p: "p = xs ! i # p'"
    and p': "p' \<in> set (permutations (take i xs @ drop (Suc i) xs) r)"
    by auto
  from Suc.IH[OF p'] have "set p' \<subseteq> set (take i xs) \<union> set (drop (Suc i) xs)" "length p' = r"
    by auto
  then have "set p' \<subseteq> set xs"
    using set_take_subset[of i xs] set_drop_subset[of "Suc i" xs] by blast
  then show ?case using p i \<open>length p' = r\<close> by simp
qed

lemma detector_orders_set:
  assumes "order \<in> set (detector_orders n)"
  shows "(\<forall>i\<in>set order. i < n) \<and> 2 \<le> length order"
proof -
  from assms obtain r where r: "2 \<le> r" and "order \<in> set (permutations [0..<n] r)"
    by (auto simp: detector_orders_def)
  from permutations_set[OF this(2)] r show ?thesis by auto
qed

lemma amin_total: "xs \<noteq> [] \<Longrightarrow> \<exists>v. amin xs = Inr v"
  by (cases xs) (simp_all add: amin_def)

lemma amax_total: "xs \<noteq> [] \<Longrightarrow> \<exists>v. amax xs = Inr v"
  by (cases xs) (simp_all add: amax_def)

lemma sequence_total:
  "\<forall>x\<in>set xs. \<exists>v. g x = Inr v \<Longrightarrow> \<exists>vs. sequence (map g xs) = Inr vs"
proof (induction xs)
  case Nil
  then show ?case by simp
next
  case (Cons x xs)
  then obtain v vs where "g x = Inr v" "sequence (map g xs) = Inr vs" by auto
  then show ?case by simp
qed

lemma delays_prior_entry_total:
  assumes idx: "\<forall>i\<in>set order. i < length gd" and ne: "\<forall>row\<in>set gd. row \<noteq> []"
    and len: "2 \<le> length order"
  shows "\<exists>hb. delays_prior_entry f gd w order = Inr hb"
proof -
  define pd where "pd = map (\<lambda>i. map2 (\<lambda>a b. discretize f (a - b)) (gd ! i) (gd ! hd order)) (tl order)"
  have pw: "pairwise_delays f gd order = Inr pd"
    using idx by (simp add: pairwise_delays_def pd_def list_all_iff)
  have order: "order \<noteq> []" "tl order \<noteq> []" using len by (cases order; cases "tl order"; auto)+
  have hd: "gd ! hd order \<noteq> []" using idx ne order(1) by (metis hd_in_set nth_mem)
  have rows: "\<forall>r\<in>set pd. r \<noteq> []"
  proof
    fix r assume "r \<in> set pd"
    then obtain i where "i \<in> set (tl order)" and r: "r = map2 (\<lambda>a b. discretize f (a - b)) (gd ! i) (gd ! hd order)"
      by (auto simp: pd_def)
    then have "i \<in> set order" using order(1) by (meson list.set_sel(2))
    then have "gd ! i \<noteq> []" using idx ne by (metis nth_mem)
    then show "r \<noteq> []" using hd r by (cases "gd ! i"; cases "gd ! hd order") auto
  qed
  obtain mins where mins: "sequence (map amin pd) = Inr mins"
    using sequence_total[of pd amin] rows amin_total by blast
  obtain maxs where maxs: "sequence (map amax pd) = Inr maxs"
    using sequence_total[of pd amax] rows amax_total by blast
  have "pd \<noteq> []" using order(2) by (simp add: pd_def)
  then have "concat pd \<noteq> []" using rows by (cases pd) auto
  then obtain lo hi where "amin (concat pd) = Inr lo" "amax (concat pd) = Inr hi"
    using amin_total amax_total by blast
  then show ?thesis
    by (simp add: delays_prior_entry_def pw mins maxs Let_def)
qed

lemma init_InrI:
  assumes "gd = g0 # rest"
    and "d2i = create_delays2inds_map f (map (\<lambda>row. map2 (-) row g0) rest)"
    and "amin_axis0 (map fst d2i) = Inr mn" "amax_axis0 (map fst d2i) = Inr mx"
    and "sequence (map (delays_prior_entry f gd (antenna_weights fpfc))
           (detector_orders (length names))) = Inr entries"
    and "fill_generators d2i (np_full (dense_shape mn mx) Exhausted) = Inr gens"
    and "fill_sky_prior f (int (length names)) n d2i (np_full (dense_shape mn mx) 0) = Inr prior"
  shows "\<exists>sd. init names f n samples fpfc gd = Inr sd"
  using assms by (simp add: init_def Let_def)

lemma in_range_norm_key:
  assumes len: "length mn = length mx"
    and org: "\<forall>j<length mx. mn ! j \<le> 0 \<and> - 1 \<le> mx ! j"
    and r: "list_all2 (\<le>) mn q" "list_all2 (\<le>) q mx"
  shows "\<exists>c. norm_key (dense_shape mn mx) q = Some c"
proof (rule norm_key_SomeI)
  have lq: "length q = length mx" using r(2) by (rule list_all2_lengthD)
  show "length q = length (dense_shape mn mx)" using lq len by (simp add: length_dense_shape)
  show "\<forall>j<length (dense_shape mn mx). \<exists>c. norm_index (dense_shape mn mx ! j) (q ! j) = Some c"
  proof (intro allI impI)
    fix j assume "j < length (dense_shape mn mx)"
    then have j: "j < length mx" using len by (simp add: length_dense_shape)
    have b: "mn ! j \<le> q ! j" "q ! j \<le> mx ! j"
      using r j lq len by (auto simp: list_all2_conv_all_nth)
    from norm_index_in_range[of "mn ! j" "mx ! j" "q ! j"] org j b
    show "\<exists>c. norm_index (dense_shape mn mx ! j) (q ! j) = Some c"
      by (simp add: dense_shape_nth[OF len j])
  qed
qed

lemma keys_within_min_max:
  assumes mn: "amin_axis0 ks = Inr mn" and mx: "amax_axis0 ks = Inr mx"
    and len: "\<forall>q\<in>set ks. length q = d" and k: "k \<in> set ks"
  shows "list_all2 (\<le>) mn k \<and> list_all2 (\<le>) k mx"
proof -
  have l: "length mn = d" "length mx = d" "length k = d"
    using amin_axis0_nth(1)[OF mn len] amax_axis0_nth(1)[OF mx len] len k by auto
  have "mn ! j \<le> k ! j \<and> k ! j \<le> mx ! j" if "j < d" for j
  proof -
    have fin: "finite ((\<lambda>q. q ! j) ` set ks)" "k ! j \<in> (\<lambda>q. q ! j) ` set ks" using k by auto
    show ?thesis
      using amin_axis0_nth(2)[OF mn len that] amax_axis0_nth(2)[OF mx len that]
        Min_le[OF fin] Max_ge[OF fin] by simp
  qed
  then show ?thesis using l by (simp add: list_all2_conv_all_nth)
qed

lemma min_max_attained:
  assumes mn: "amin_axis0 ks = Inr mn" and mx: "amax_axis0 ks = Inr mx"
    and len: "\<forall>q\<in>set ks. length q = d" and j: "j < d"
  shows "\<exists>k\<in>set ks. k ! j = mn ! j" "\<exists>k\<in>set ks. k ! j = mx ! j"
proof -
  have ne: "ks \<noteq> []" using amin_axis0_nth(3)[OF mn len] .
  then have fin: "finite ((\<lambda>q. q ! j) ` set ks)" "(\<lambda>q. q ! j) ` set ks \<noteq> {}" by auto
  have "mn ! j \<in> (\<lambda>q. q ! j) ` set ks"
    using amin_axis0_nth(2)[OF mn len j] Min_in[OF fin] by simp
  then show "\<exists>k\<in>set ks. k ! j = mn ! j" by auto
  have "mx ! j \<in> (\<lambda>q. q ! j) ` set ks"
    using amax_axis0_nth(2)[OF mx len j] Max_in[OF fin] by simp
  then show "\<exists>k\<in>set ks. k ! j = mx ! j" by auto
qed

lemma spans_origin_min_max:
  assumes mn: "amin_axis0 ks = Inr mn" and mx: "amax_axis0 ks = Inr mx"
    and len: "\<forall>q\<in>set ks. length q = d" and sp: "spans_origin ks d" and j: "j < d"
  shows "mn ! j \<le> 0 \<and> - 1 \<le> mx ! j"
proof -
  from sp j have "(\<exists>k\<in>set ks. k ! j \<le> 0) \<and> (\<exists>k\<in>set ks. - 1 \<le> k ! j)"
    by (simp add: spans_origin_def list_all_iff list_ex_iff)
  then obtain k1 k2 where k: "k1 \<in> set ks" "k1 ! j \<le> 0" "k2 \<in> set ks" "- 1 \<le> k2 ! j"
    by blast
  have l: "length mn = d" "length k2 = d"
    using amin_axis0_nth(1)[OF mn len] len k(3) by auto
  have "list_all2 (\<le>) mn k1" using keys_within_min_max[OF mn mx len k(1)] by simp
  then have a: "mn ! j \<le> k1 ! j" using j l(1) by (simp add: list_all2_nthD)
  have "list_all2 (\<le>) k2 mx" using keys_within_min_max[OF mn mx len k(3)] by simp
  then have b: "k2 ! j \<le> mx ! j" using j l(2) by (simp add: list_all2_nthD)
  show ?thesis using a b k(2,4) by linarith
qed

lemma written_keys_span_origin:
  assumes mn: "amin_axis0 ks = Inr mn" and mx: "amax_axis0 ks = Inr mx"
    and len: "\<forall>q\<in>set ks. length q = d"
    and wr: "\<forall>k\<in>set ks. \<exists>c. norm_key (dense_shape mn mx) k = Some c"
    and j: "j < d"
  shows "mn ! j \<le> 0 \<and> - 1 \<le> mx ! j"
proof -
  have l: "length mn = length mx" "length mx = d" "length mn = d"
    using amin_axis0_nth(1)[OF mn len] amax_axis0_nth(1)[OF mx len] by auto
  have jj: "j < length mx" "j < length (dense_shape mn mx)"
    using l j by (simp_all add: length_dense_shape)
  obtain k1 k2 where k: "k1 \<in> set ks" "k1 ! j = mn ! j" "k2 \<in> set ks" "k2 ! j = mx ! j"
    using min_max_attained[OF mn mx len j] by blast
  have "list_all2 (\<le>) k1 mx" using keys_within_min_max[OF mn mx len k(1)] by simp
  then have "k1 ! j \<le> mx ! j" using j len k(1) by (simp add: list_all2_nthD)
  then have le: "mn ! j \<le> mx ! j" using k(2) by simp
  obtain c1 c2 where c: "norm_key (dense_shape mn mx) k1 = Some c1"
    "norm_key (dense_shape mn mx) k2 = Some c2"
    using wr k by blast
  have "\<exists>c. norm_index (nat (mx ! j - mn ! j + 1)) (mn ! j) = Some c"
    using norm_key_nth[OF c(1) jj(2)] dense_shape_nth[OF l(1) jj(1)] k(2) by simp
  then have a: "- int (nat (mx ! j - mn ! j + 1)) \<le> mn ! j"
    by (simp only: norm_index_Some_iff)
  have "\<exists>c. norm_index (nat (mx ! j - mn ! j + 1)) (mx ! j) = Some c"
    using norm_key_nth[OF c(2) jj(2)] dense_shape_nth[OF l(1) jj(1)] k(4) by simp
  then have b: "mx ! j < int (nat (mx ! j - mn ! j + 1))"
    by (simp only: norm_index_Some_iff)
  show ?thesis using a b le by linarith
qed

lemma sample_keys_Cons:
  "sample_keys f (g0 # rest) = zip_star (map (map (discretize f)) (map (\<lambda>row. map2 (-) row g0) rest))"
  by (simp add: sample_keys_def)

lemma prior_value_total:
  "n \<noteq> 0 \<Longrightarrow> 1 \<le> nd \<Longrightarrow> prior_value f nd n len = Inr (of_int (f ^ nat (nd - 1)) * of_nat len / of_int n)"
  by (simp add: prior_value_def py_pow_def)

lemma init_succeeds:
  assumes gd: "2 \<le> length gd" "length names = length gd"
    and rect: "\<forall>row\<in>set gd. length row = m" "0 < m"
    and n: "n \<noteq> 0"
    and sp: "spans_origin (sample_keys f gd) (length gd - 1)"
  shows "\<exists>sd. init names f n samples fpfc gd = Inr sd"
proof -
  from gd(1) obtain g0 rest where g: "gd = g0 # rest" and rest: "rest \<noteq> []"
    by (cases gd; cases "tl gd") auto
  define dls where "dls = map (\<lambda>row. map2 (-) row g0) rest"
  define d2i where "d2i = create_delays2inds_map f dls"
  define ks where "ks = zip_star (map (map (discretize f)) dls)"
  have sk: "sample_keys f gd = ks" by (simp add: g sample_keys_Cons ks_def dls_def)
  have dls: "dls \<noteq> []" "\<forall>r\<in>set dls. length r = m"
    using rest rect g by (auto simp: dls_def)
  have lks: "length ks = m" unfolding ks_def using dls by (rule length_zip_star_discretize)
  have kl: "\<forall>q\<in>set ks. length q = length rest"
    using length_zip_star_col[of _ "map (map (discretize f)) dls"] by (auto simp: ks_def dls_def)
  have keys: "set (map fst d2i) = set ks"
    using keys_create[of f dls] by (simp add: d2i_def ks_def)
  have "ks \<noteq> []" using lks rect(2) by auto
  then have ne: "map fst d2i \<noteq> []" using keys by (metis set_empty)
  obtain mn mx where mn: "amin_axis0 (map fst d2i) = Inr mn" and mx: "amax_axis0 (map fst d2i) = Inr mx"
    using amin_axis0_total[OF ne] amax_axis0_total[OF ne] by blast
  have kl': "\<forall>q\<in>set (map fst d2i). length q = length rest" using kl keys by simp
  have l: "length mn = length rest" "length mx = length rest"
    using amin_axis0_nth(1)[OF mn kl'] amax_axis0_nth(1)[OF mx kl'] by auto
  have sp': "spans_origin (map fst d2i) (length rest)"
    using sp sk keys g by (simp add: spans_origin_def list_ex_iff)
  have org: "\<forall>j<length mx. mn ! j \<le> 0 \<and> - 1 \<le> mx ! j"
    using spans_origin_min_max[OF mn mx kl' sp'] l by simp
  have wr: "\<forall>kv\<in>set d2i. \<exists>c. norm_key (dense_shape mn mx) (fst kv) = Some c"
  proof
    fix kv assume "kv \<in> set d2i"
    then have "fst kv \<in> set (map fst d2i)" by simp
    from keys_within_min_max[OF mn mx kl' this] in_range_norm_key[OF _ org] l
    show "\<exists>c. norm_key (dense_shape mn mx) (fst kv) = Some c" by simp
  qed
  obtain gens where gens: "fill_generators d2i (np_full (dense_shape mn mx) Exhausted) = Inr gens"
    using fill_generators_total[of d2i "np_full (dense_shape mn mx) Exhausted"] wr
    by (auto simp: np_full_def)
  have "1 \<le> int (length names)" using gd by simp
  then have pv: "\<forall>kv\<in>set d2i. \<exists>v. prior_value f (int (length names)) n (length (snd kv)) = Inr v"
    using prior_value_total[OF n] by blast
  obtain prior where prior:
    "fill_sky_prior f (int (length names)) n d2i (np_full (dense_shape mn mx) 0) = Inr prior"
    using fill_sky_prior_total[of d2i "np_full (dense_shape mn mx) 0", OF _ pv] wr
    by (auto simp: np_full_def)
  have rows: "\<forall>row\<in>set gd. row \<noteq> []" using rect by auto
  have "\<forall>order\<in>set (detector_orders (length names)).
          \<exists>hb. delays_prior_entry f gd (antenna_weights fpfc) order = Inr hb"
  proof
    fix order assume "order \<in> set (detector_orders (length names))"
    from detector_orders_set[OF this] gd(2) rows
    show "\<exists>hb. delays_prior_entry f gd (antenna_weights fpfc) order = Inr hb"
      by (intro delays_prior_entry_total) auto
  qed
  then obtain entries where entries:
    "sequence (map (delays_prior_entry f gd (antenna_weights fpfc))
       (detector_orders (length names))) = Inr entries"
    using sequence_total by blast
  show ?thesis
    using init_InrI[OF g _ mn mx entries gens prior] by (simp add: d2i_def dls_def)
qed

lemma rint_numerals:
  "rint 0 = 0" "rint 1 = 1" "rint (- 1) = - 1"
  "rint (numeral w) = numeral w" "rint (- numeral w) = - numeral w"
  using rint_of_int[of 0] rint_of_int[of 1] rint_of_int[of "- 1"]
    rint_of_int[of "numeral w"] rint_of_int[of "- numeral w"]
  by simp_all

lemma upt_4: "[0..<4] = [0, 1, 2, 3]"
  by (simp add: upt_rec)

lemma ex_sample_keys: "sample_keys 1 ex_gd = [[- 2], [0], [0], [1]]"
  by (simp add: sample_keys_def ex_gd_def zip_star_def discretize_def rint_numerals upt_4)

lemma ex_init: "init ex_names 1 4 ex_samples ex_fpfc ex_gd = Inr ex_sd"
proof -
  have "spans_origin (sample_keys 1 ex_gd) (length ex_gd - 1)"
    by (simp add: ex_sample_keys spans_origin_def) (simp add: ex_gd_def)
  moreover have "\<forall>row\<in>set ex_gd. length row = 4" by (simp add: ex_gd_def)
  moreover have "2 \<le> length ex_gd" "length ex_names = length ex_gd"
    by (simp_all add: ex_gd_def ex_names_def)
  ultimately obtain sd where "init ex_names 1 4 ex_samples ex_fpfc ex_gd = Inr sd"
    using init_succeeds[of ex_gd ex_names 4 4 1 ex_samples ex_fpfc] by auto
  then show ?thesis by (simp add: ex_sd_def)
qed

lemma distinct_keys_create: "distinct (map fst (create_delays2inds_map f dls))"
  by (simp add: create_delays2inds_map_build distinct_build)

lemma map_of_create:
  "map_of (create_delays2inds_map f dls) k =
     (if positions 0 (zip_star (map (map (discretize f)) dls)) k = [] then None
      else Some (positions 0 (zip_star (map (map (discretize f)) dls)) k))"
  by (simp add: create_delays2inds_map_build map_of_build)

lemma create_entry_iff:
  "(k, inds) \<in> set (create_delays2inds_map f dls) \<longleftrightarrow>
     inds = positions 0 (zip_star (map (map (discretize f)) dls)) k \<and> inds \<noteq> []"
proof -
  have "(k, inds) \<in> set (create_delays2inds_map f dls)
      \<longleftrightarrow> map_of (create_delays2inds_map f dls) k = Some inds"
    using distinct_keys_create by simp
  then show ?thesis by (auto simp: map_of_create)
qed

lemma length_filter_key:
  "distinct (map fst m) \<Longrightarrow> k \<in> fst ` set m \<Longrightarrow> length (filter (\<lambda>kv. fst kv = k) m) = 1"
proof (induction m)
  case Nil
  then show ?case by simp
next
  case (Cons a m)
  show ?case
  proof (cases "fst a = k")
    case True
    then have "k \<notin> fst ` set m" using Cons.prems(1) by auto
    then have "filter (\<lambda>kv. fst kv = k) m = []" by (auto simp: filter_empty_conv)
    then show ?thesis using True by simp
  next
    case False
    then have "k \<in> fst ` set m" using Cons.prems(2) by auto
    then show ?thesis using Cons False by simp
  qed
qed

lemma init_sample_keys:
  assumes "init names f n samples fpfc gd = Inr sd"
  shows "delays2inds_map sd = build 0 (sample_keys f gd) []"
    and "sample_keys f gd \<noteq> []"
proof -
  from assms obtain g0 rest mn where gd: "gd = g0 # rest"
    and d2i: "delays2inds_map sd = create_delays2inds_map f (map (\<lambda>row. map2 (-) row g0) rest)"
    and mn: "amin_axis0 (map fst (delays2inds_map sd)) = Inr mn"
    by (rule init_InrE)
  show e: "delays2inds_map sd = build 0 (sample_keys f gd) []"
    by (simp add: d2i gd sample_keys_Cons create_delays2inds_map_build)
  have "delays2inds_map sd \<noteq> []" using amin_axis0_Inr[OF mn] by simp
  then show "sample_keys f gd \<noteq> []" using e by (auto simp: build_Nil)
qed

lemma length_sample_keys:
  assumes "2 \<le> length gd" "\<forall>row\<in>set gd. length row = m"
  shows "length (sample_keys f gd) = m"
proof -
  from assms(1) obtain g0 rest where g: "gd = g0 # rest" and rest: "rest \<noteq> []"
    by (cases gd; cases "tl gd") auto
  have "length (zip_star (map (map (discretize f)) (map (\<lambda>row. map2 (-) row g0) rest))) = m"
    using rest assms(2) g by (intro length_zip_star_discretize) auto
  then show ?thesis by (simp add: g sample_keys_Cons)
qed

lemma init_two_rows:
  assumes "init names f n samples fpfc gd = Inr sd"
  shows "2 \<le> length gd"
proof -
  from assms obtain g0 rest mn where gd: "gd = g0 # rest"
    and d2i: "delays2inds_map sd = create_delays2inds_map f (map (\<lambda>row. map2 (-) row g0) rest)"
    and mn: "amin_axis0 (map fst (delays2inds_map sd)) = Inr mn"
    by (rule init_InrE)
  have "delays2inds_map sd \<noteq> []" using amin_axis0_Inr[OF mn] by simp
  then have "rest \<noteq> []" using d2i create_Nil by auto
  then show ?thesis using gd by (cases rest) auto
qed

lemma distinct_cells:
  assumes "distinct (map fst m)"
    and "\<forall>kv\<in>set m. list_all2 (\<le>) mn (fst kv) \<and> list_all2 (\<le>) (fst kv) mx"
    and "\<forall>kv\<in>set m. \<exists>c. norm_key (dense_shape mn mx) (fst kv) = Some c"
    and "length mn = length mx"
  shows "distinct (map (\<lambda>kv. norm_key (dense_shape mn mx) (fst kv)) m)"
proof -
  have "inj_on (norm_key (dense_shape mn mx)) (set (map fst m))"
  proof (rule inj_onI)
    fix k k' assume k: "k \<in> set (map fst m)" "k' \<in> set (map fst m)"
      and eq: "norm_key (dense_shape mn mx) k = norm_key (dense_shape mn mx) k'"
    from k assms(3) obtain c where c: "norm_key (dense_shape mn mx) k = Some c" by auto
    then have c': "norm_key (dense_shape mn mx) k' = Some c" using eq by simp
    from k assms(2) have r: "list_all2 (\<le>) mn k" "list_all2 (\<le>) k mx"
      "list_all2 (\<le>) mn k'" "list_all2 (\<le>) k' mx" by auto
    show "k = k'" using norm_key_inj_in_range[OF c c' assms(4) r] .
  qed
  then have "distinct (map (norm_key (dense_shape mn mx)) (map fst m))"
    using distinct_map[of "norm_key (dense_shape mn mx)" "map fst m"] assms(1) by blast
  then show ?thesis by (simp only: map_map comp_def)
qed

lemma init_fresh:
  assumes ok: "init names f n samples fpfc gd = Inr sd"
  shows "consistent sd"
    and "\<lbrakk>map_of (delays2inds_map sd) q = Some inds;
          norm_key (dense_shape (min_delay sd) (max_delay sd)) q = Some c\<rbrakk>
         \<Longrightarrow> cells (ind_generators sd) c = Cycle inds 0"
proof -
  from ok obtain g0 rest mn mx where gd: "gd = g0 # rest"
    and d2i: "delays2inds_map sd = create_delays2inds_map f (map (\<lambda>row. map2 (-) row g0) rest)"
    and mn: "amin_axis0 (map fst (delays2inds_map sd)) = Inr mn"
    and mx: "amax_axis0 (map fst (delays2inds_map sd)) = Inr mx"
    and mm: "min_delay sd = mn" "max_delay sd = mx"
    and fg: "fill_generators (delays2inds_map sd) (np_full (dense_shape mn mx) Exhausted)
       = Inr (ind_generators sd)"
    and fp: "fill_sky_prior f (int (length names)) n (delays2inds_map sd)
       (np_full (dense_shape mn mx) 0) = Inr (dense_sky_prior sd)"
    and fields: "detector_names sd = names" "nsky sd = n" "f_sampling sd = f"
    by (rule init_InrE)
  let ?m = "delays2inds_map sd"
  let ?shp = "dense_shape mn mx"
  define d where "d = length rest"
  have kl: "\<forall>q\<in>set (map fst ?m). length q = d"
  proof
    fix q assume "q \<in> set (map fst ?m)"
    then have "q \<in> set (zip_star (map (map (discretize f)) (map (\<lambda>row. map2 (-) row g0) rest)))"
      using keys_create[of f "map (\<lambda>row. map2 (-) row g0) rest"] d2i by simp
    from length_zip_star_col[OF this] show "length q = d" by (simp add: d_def)
  qed
  have l: "length mn = d" "length mx = d"
    using amin_axis0_nth(1)[OF mn kl] amax_axis0_nth(1)[OF mx kl] by auto
  then have len: "length mn = length mx" by simp
  have dist: "distinct (map fst ?m)" using d2i distinct_keys_create by simp
  have s1: "shape (ind_generators sd) = ?shp"
    using fill_generators_shape[OF fg] by (simp add: np_full_def)
  have s2: "shape (dense_sky_prior sd) = ?shp"
    using fill_sky_prior_shape[OF fp] by (simp add: np_full_def)
  have wr: "\<forall>kv\<in>set ?m. \<exists>c. norm_key ?shp (fst kv) = Some c"
    using fill_generators_keys[OF fg] by (simp add: np_full_def)
  then have wr': "\<forall>k\<in>set (map fst ?m). \<exists>c. norm_key ?shp k = Some c" by simp
  have org: "\<forall>j<length mx. mn ! j \<le> 0 \<and> - 1 \<le> mx ! j"
    using written_keys_span_origin[OF mn mx kl wr'] l by simp
  have inr: "\<forall>kv\<in>set ?m. list_all2 (\<le>) mn (fst kv) \<and> list_all2 (\<le>) (fst kv) mx"
    using keys_within_min_max[OF mn mx kl] by simp
  have dc: "distinct (map (\<lambda>kv. norm_key ?shp (fst kv)) ?m)"
    using distinct_cells[OF dist inr wr len] .
  have dcg: "distinct (map (\<lambda>kv. norm_key (shape (np_full ?shp Exhausted)) (fst kv)) ?m)"
    using dc by (simp add: np_full_def)
  have dcp: "distinct (map (\<lambda>kv. norm_key (shape (np_full ?shp (0::real))) (fst kv)) ?m)"
    using dc by (simp add: np_full_def)
  have some: "cells (ind_generators sd) c = Cycle inds 0
      \<and> prior_value f (int (length names)) n (length inds) = Inr (cells (dense_sky_prior sd) c)
      \<and> inds \<noteq> []"
    if "map_of ?m q = Some inds" "norm_key ?shp q = Some c" for q inds c
  proof -
    have mem: "(q, inds) \<in> set ?m" using that(1) by (rule map_of_SomeD)
    have "inds \<noteq> []" using mem[unfolded d2i create_entry_iff] by (rule conjunct2)
    moreover have "cells (ind_generators sd) c = Cycle inds 0"
      using fill_generators_at[OF fg dcg mem] that(2) by (simp add: np_full_def)
    moreover have "prior_value f (int (length names)) n (length inds) = Inr (cells (dense_sky_prior sd) c)"
      using fill_sky_prior_at[OF fp dcp mem] that(2) by (simp add: np_full_def)
    ultimately show ?thesis by simp
  qed
  have none: "cells (dense_sky_prior sd) c = 0 \<and> cells (ind_generators sd) c = Exhausted"
    if "map_of ?m q = None" "norm_key ?shp q = Some c" "list_all2 (\<le>) mn q" "list_all2 (\<le>) q mx"
    for q c
  proof -
    have no: "\<forall>kv\<in>set ?m. norm_key ?shp (fst kv) \<noteq> Some c"
    proof
      fix kv assume kv: "kv \<in> set ?m"
      show "norm_key ?shp (fst kv) \<noteq> Some c"
      proof
        assume e: "norm_key ?shp (fst kv) = Some c"
        have "fst kv = q"
          using norm_key_inj_in_range[OF e that(2) len] inr kv that(3,4) by simp
        then have "q \<in> fst ` set ?m" using kv by auto
        then show False using that(1) by (simp add: map_of_eq_None_iff)
      qed
    qed
    have "cells (ind_generators sd) c = Exhausted"
      using fill_generators_other[OF fg, of c] no by (simp add: np_full_def)
    moreover have "cells (dense_sky_prior sd) c = 0"
      using fill_sky_prior_other[OF fp, of c] no by (simp add: np_full_def)
    ultimately show ?thesis by simp
  qed
  show "consistent sd"
    unfolding consistent_def mm
  proof (intro conjI allI impI)
    fix q c assume r: "within_range sd q" and c: "norm_key ?shp q = Some c"
    have rr: "list_all2 (\<le>) mn q" "list_all2 (\<le>) q mx" using r by (simp_all add: within_range_def mm)
    show "cell_state sd q c"
    proof (cases "map_of ?m q")
      case None
      then show ?thesis using none[OF None c rr] by (simp add: cell_state_def)
    next
      case (Some inds)
      have "inds \<noteq> []" "0 < length inds" using some[OF Some c] by auto
      then show ?thesis using some[OF Some c] Some by (auto simp: cell_state_def fields)
    qed
  qed (use len s1 s2 org in auto)
  show "cells (ind_generators sd) c = Cycle inds 0"
    if "map_of (delays2inds_map sd) q = Some inds"
      "norm_key (dense_shape (min_delay sd) (max_delay sd)) q = Some c"
    using some[of q inds c] that by (simp add: mm)
qed

lemma norm_key_wrap:
  assumes "norm_key shp q = Some c"
  shows "c = map2 (\<lambda>k n. nat (k mod int n)) q shp"
proof (rule nth_equalityI)
  have l: "length q = length shp" "length c = length shp" using norm_key_length[OF assms] by auto
  then show "length c = length (map2 (\<lambda>k n. nat (k mod int n)) q shp)" by simp
  fix j assume "j < length c"
  then have j: "j < length shp" using l by simp
  have "int (c ! j) = q ! j mod int (shp ! j)"
    using norm_index_mod[OF norm_key_nth[OF assms j]] by simp
  then have "c ! j = nat (q ! j mod int (shp ! j))" by linarith
  then show "c ! j = map2 (\<lambda>k n. nat (k mod int n)) q shp ! j" using j l by simp
qed

lemma count_positions:
  "length (positions 0 ks k) = length (filter (\<lambda>q. q = k) ks)"
proof -
  have "filter (\<lambda>q. q = k) (map ((!) ks) [0..<length ks])
      = map ((!) ks) (filter (\<lambda>i. ks ! i = k) [0..<length ks])"
    by (simp add: filter_map comp_def)
  then have "length (filter (\<lambda>q. q = k) ks) = length (filter (\<lambda>i. ks ! i = k) [0..<length ks])"
    by (simp add: map_nth)
  then show ?thesis by (simp add: positions_eq_filter)
qed

lemma consistent_cell:
  assumes "consistent sd" "within_range sd q"
  obtains c where "norm_key (dense_shape (min_delay sd) (max_delay sd)) q = Some c"
    "cell_state sd q c"
proof -
  have len: "length (min_delay sd) = length (max_delay sd)"
    and org: "\<forall>j<length (max_delay sd). min_delay sd ! j \<le> 0 \<and> - 1 \<le> max_delay sd ! j"
    using assms(1) by (simp_all add: consistent_def)
  have r: "list_all2 (\<le>) (min_delay sd) q" "list_all2 (\<le>) q (max_delay sd)"
    using assms(2) by (simp_all add: within_range_def)
  obtain c where c: "norm_key (dense_shape (min_delay sd) (max_delay sd)) q = Some c"
    using in_range_norm_key[OF len org r] by blast
  moreover have "cell_state sd q c" using assms c by (simp add: consistent_def)
  ultimately show ?thesis using that by blast
qed

lemma consistent_shapes:
  assumes "consistent sd"
  shows "shape (ind_generators sd) = dense_shape (min_delay sd) (max_delay sd)"
    "shape (dense_sky_prior sd) = dense_shape (min_delay sd) (max_delay sd)"
  using assms by (simp_all add: consistent_def)

lemma init_keys_within_range:
  assumes ok: "init names f n samples fpfc gd = Inr sd" and k: "k \<in> set (sample_keys f gd)"
  shows "within_range sd k"
proof -
  from ok obtain mn mx where
    mn: "amin_axis0 (map fst (delays2inds_map sd)) = Inr mn"
    and mx: "amax_axis0 (map fst (delays2inds_map sd)) = Inr mx"
    and mm: "min_delay sd = mn" "max_delay sd = mx"
    by (rule init_InrE)
  have d2i: "delays2inds_map sd = build 0 (sample_keys f gd) []" using init_sample_keys(1)[OF ok] .
  have keys: "set (map fst (delays2inds_map sd)) = set (sample_keys f gd)"
    using set_keys_build[of 0 "sample_keys f gd" "[]"] by (simp add: d2i)
  have kl: "\<forall>q\<in>set (map fst (delays2inds_map sd)). length q = length gd - 1"
  proof
    fix q assume "q \<in> set (map fst (delays2inds_map sd))"
    then have "q \<in> set (sample_keys f gd)" using keys by simp
    then have "length q = length (map (map (discretize f)) (map (\<lambda>row. map2 (-) row (hd gd)) (tl gd)))"
      unfolding sample_keys_def by (rule length_zip_star_col)
    then show "length q = length gd - 1" by simp
  qed
  have "k \<in> set (map fst (delays2inds_map sd))" using k keys by simp
  from keys_within_min_max[OF mn mx kl this] show ?thesis by (simp add: within_range_def mm)
qed

lemma init_map_of:
  assumes ok: "init names f n samples fpfc gd = Inr sd"
  shows "map_of (delays2inds_map sd) k =
     (if k \<in> set (sample_keys f gd) then Some (positions 0 (sample_keys f gd) k) else None)"
proof -
  have d2i: "delays2inds_map sd = build 0 (sample_keys f gd) []" using init_sample_keys(1)[OF ok] .
  have "set (positions 0 (sample_keys f gd) k) = {} \<longleftrightarrow> k \<notin> set (sample_keys f gd)"
    by (simp add: set_positions in_set_conv_nth)
  then have "positions 0 (sample_keys f gd) k = [] \<longleftrightarrow> k \<notin> set (sample_keys f gd)"
    by (simp only: set_empty)
  then show ?thesis by (simp add: d2i map_of_build)
qed

lemma ex_delays2inds_map:
  "delays2inds_map ex_sd = [([- 2], [0]), ([0], [1, 2]), ([1], [3])]"
  using init_sample_keys(1)[OF ex_init]
  by (simp add: ex_sample_keys build_Cons build_Nil)

lemma ex_min_max: "min_delay ex_sd = [- 2]" "max_delay ex_sd = [1]"
proof -
  from ex_init obtain mn mx where
    "amin_axis0 (map fst (delays2inds_map ex_sd)) = Inr mn"
    "amax_axis0 (map fst (delays2inds_map ex_sd)) = Inr mx"
    "min_delay ex_sd = mn" "max_delay ex_sd = mx"
    by (rule init_InrE)
  then show "min_delay ex_sd = [- 2]" "max_delay ex_sd = [1]"
    by (auto simp: ex_delays2inds_map amin_axis0_def amax_axis0_def)
qed

lemma prior_entries:
  assumes ok: "init names f n samples fpfc gd = Inr sd"
    and rows: "length gd = length names"
  shows "(k \<in> set (sample_keys f gd) \<longrightarrow>
            getitem (dense_sky_prior sd) k
              = Inr (of_int (f ^ (length names - 1))
                     * of_nat (length (filter (\<lambda>q. q = k) (sample_keys f gd))) / of_int n))
       \<and> (within_range sd k \<and> k \<notin> set (sample_keys f gd) \<longrightarrow>
            getitem (dense_sky_prior sd) k = Inr 0)"
proof (intro conjI impI)
  have cons: "consistent sd" using init_fresh(1)[OF ok] .
  from ok have fields: "detector_names sd = names \<and> nsky sd = n \<and> f_sampling sd = f"
    by (rule init_InrE) simp
  have nd: "1 \<le> int (length names)" using init_two_rows[OF ok] rows by simp
  {
    assume k: "k \<in> set (sample_keys f gd)"
    let ?inds = "positions 0 (sample_keys f gd) k"
    have m: "map_of (delays2inds_map sd) k = Some ?inds" using init_map_of[OF ok] k by simp
    obtain c where c: "norm_key (dense_shape (min_delay sd) (max_delay sd)) k = Some c"
      and st: "cell_state sd k c"
      using consistent_cell[OF cons init_keys_within_range[OF ok k]] by blast
    have pv: "prior_value f (int (length names)) n (length ?inds) = Inr (cells (dense_sky_prior sd) c)"
      using st m by (simp add: cell_state_def fields)
    then have "n \<noteq> 0" by (auto simp: prior_value_def split: sum.splits if_splits)
    from prior_value_total[OF this nd, of f "length ?inds"] pv
    have "cells (dense_sky_prior sd) c
        = of_int (f ^ (length names - 1)) * of_nat (length ?inds) / of_int n"
      by (simp add: nat_diff_distrib')
    then show "getitem (dense_sky_prior sd) k
              = Inr (of_int (f ^ (length names - 1))
                     * of_nat (length (filter (\<lambda>q. q = k) (sample_keys f gd))) / of_int n)"
      using c by (simp add: getitem_def consistent_shapes[OF cons] count_positions)
  }
  {
    assume k: "within_range sd k \<and> k \<notin> set (sample_keys f gd)"
    then have m: "map_of (delays2inds_map sd) k = None" using init_map_of[OF ok] by simp
    obtain c where c: "norm_key (dense_shape (min_delay sd) (max_delay sd)) k = Some c"
      and st: "cell_state sd k c"
      using consistent_cell[OF cons] k by blast
    show "getitem (dense_sky_prior sd) k = Inr 0"
      using c st m by (simp add: getitem_def consistent_shapes[OF cons] cell_state_def)
  }
qed

lemma ex_shapes:
  "shape (dense_sky_prior ex_sd) = [4]" "shape (ind_generators ex_sd) = [4]"
  using consistent_shapes[OF init_fresh(1)[OF ex_init]]
  by (simp_all add: ex_min_max dense_shape_def)

lemma wrap_cell_inj:
  assumes cons: "consistent sd" and r: "within_range sd q" "within_range sd q'"
    and eq: "wrap_cell (min_delay sd) (max_delay sd) q' = wrap_cell (min_delay sd) (max_delay sd) q"
  shows "q' = q"
proof -
  obtain c where c: "norm_key (dense_shape (min_delay sd) (max_delay sd)) q = Some c"
    using consistent_cell[OF cons r(1)] by blast
  obtain c' where c': "norm_key (dense_shape (min_delay sd) (max_delay sd)) q' = Some c'"
    using consistent_cell[OF cons r(2)] by blast
  have "c' = c" using norm_key_wrap[OF c] norm_key_wrap[OF c'] eq by (simp add: wrap_cell_def)
  then have c'': "norm_key (dense_shape (min_delay sd) (max_delay sd)) q' = Some c" using c' by simp
  have len: "length (min_delay sd) = length (max_delay sd)" using cons by (simp add: consistent_def)
  show ?thesis
    using norm_key_inj_in_range[OF c'' c len] r by (simp add: within_range_def)
qed

lemma compress_map: "compress (map P xs) (map g xs) = map g (filter P xs)"
  by (induction xs) (simp_all add: compress_def)

lemma compress_map_id: "compress (map P xs) xs = filter P xs"
  using compress_map[of P xs "\<lambda>x. x"] by simp

lemma mask_imul_map:
  "mask_imul (map P xs) (map Q (filter P xs)) = map (\<lambda>x. P x \<and> Q x) xs"
  by (induction xs) simp_all

lemma same_cycle_refl: "same_cycle g g"
  by (cases g) (simp_all add: same_cycle_def)

lemma same_cycle_trans: "same_cycle g g' \<Longrightarrow> same_cycle g' g'' \<Longrightarrow> same_cycle g g''"
  by (cases g; cases g'; cases g'') (simp_all add: same_cycle_def)

lemma next_gen_live:
  assumes "live g"
  obtains i g' where "next_gen g = Some (i, g')" "live g'" "same_cycle g g'"
proof -
  from assms obtain inds p where g: "g = Cycle inds p" and p: "p < length inds"
    by (cases g) (simp_all add: live_def)
  have l0: "0 < length inds" using p by linarith
  then have ne: "inds \<noteq> []" by simp
  from l0 have m: "(p + 1) mod length inds < length inds" by (rule mod_less_divisor)
  have "next_gen g = Some (inds ! p, Cycle inds ((p + 1) mod length inds))"
    using g ne by simp
  moreover have "live (Cycle inds ((p + 1) mod length inds))" using m by (simp add: live_def)
  moreover have "same_cycle g (Cycle inds ((p + 1) mod length inds))"
    using g m by (simp add: same_cycle_def)
  ultimately show ?thesis using that by blast
qed

lemma map_next_live:
  assumes "\<forall>c\<in>set cs. live (G c)"
  shows "\<exists>inds G'. map_next G cs = (inds, G', False) \<and> length inds = length cs
         \<and> (\<forall>c. c \<notin> set cs \<longrightarrow> G' c = G c) \<and> (\<forall>c. same_cycle (G c) (G' c))"
  using assms
proof (induction cs arbitrary: G)
  case Nil
  then show ?case by (simp add: same_cycle_refl)
next
  case (Cons c cs)
  have "live (G c)" using Cons.prems by simp
  then obtain i g' where n: "next_gen (G c) = Some (i, g')" and l: "live g'"
    and s: "same_cycle (G c) g'"
    by (rule next_gen_live)
  let ?G1 = "G(c := g')"
  have "\<forall>c'\<in>set cs. live (?G1 c')" using Cons.prems l by simp
  from Cons.IH[OF this] obtain inds G' where r: "map_next ?G1 cs = (inds, G', False)"
    "length inds = length cs" "\<forall>c'. c' \<notin> set cs \<longrightarrow> G' c' = ?G1 c'"
    "\<forall>c'. same_cycle (?G1 c') (G' c')"
    by blast
  have a: "map_next G (c # cs) = (i # inds, G', False)" using n r(1) by simp
  have b: "\<forall>c'. c' \<notin> set (c # cs) \<longrightarrow> G' c' = G c'" using r(3) by simp
  have d: "\<forall>c'. same_cycle (G c') (G' c')"
  proof
    fix c'
    have "same_cycle (G c') (?G1 c')" using s by (simp add: same_cycle_refl)
    then show "same_cycle (G c') (G' c')" using r(4) same_cycle_trans by blast
  qed
  show ?case using a b d r(2) by simp
qed

lemma take_cells_Some:
  assumes "\<forall>q\<in>set ys. \<exists>c. norm_key (shape a) q = Some c"
  shows "take_cells a ys = Inr (map (\<lambda>q. the (norm_key (shape a) q)) ys)"
  using assms
proof (induction ys)
  case Nil
  then show ?case by (simp add: take_cells_def)
next
  case (Cons y ys)
  then obtain c where c: "norm_key (shape a) y = Some c" by auto
  have "take_cells a ys = Inr (map (\<lambda>q. the (norm_key (shape a) q)) ys)"
    using Cons by simp
  then show ?case using c by (simp add: take_cells_def)
qed

lemma consistent_within_cell:
  assumes "consistent sd" "within_range sd q"
  shows "norm_key (dense_shape (min_delay sd) (max_delay sd)) q = Some (cell_of sd q)"
    and "cell_state sd q (cell_of sd q)"
    and "prior_at sd q = cells (dense_sky_prior sd) (cell_of sd q)"
proof -
  obtain c where c: "norm_key (dense_shape (min_delay sd) (max_delay sd)) q = Some c"
    and st: "cell_state sd q c"
    using consistent_cell[OF assms] by blast
  then have e: "cell_of sd q = c" by (simp add: cell_of_def)
  show "norm_key (dense_shape (min_delay sd) (max_delay sd)) q = Some (cell_of sd q)"
    using c e by simp
  show "cell_state sd q (cell_of sd q)" using st e by simp
  show "prior_at sd q = cells (dense_sky_prior sd) (cell_of sd q)"
    using c e by (simp add: prior_at_def getitem_def consistent_shapes[OF assms(1)])
qed

lemma query_unfold:
  assumes cons: "consistent sd"
  shows "get_sky_inds_and_prior sd dls =
     (case map_next (cells (ind_generators sd)) (map (cell_of sd) (filter (selected sd) dls)) of
        (inds, G, stop) \<Rightarrow>
          Inr (\<lparr>sky_inds = inds, sky_prior = map (prior_at sd) (filter (selected sd) dls),
                physical_mask = map (selected sd) dls, stop_iteration = stop\<rparr>,
               sd\<lparr>ind_generators := (ind_generators sd)\<lparr>cells := G\<rparr>\<rparr>))"
proof -
  let ?shp = "dense_shape (min_delay sd) (max_delay sd)"
  let ?P = "within_range sd"
  let ?Q = "\<lambda>q. 0 < prior_at sd q"
  have sh: "shape (ind_generators sd) = ?shp" "shape (dense_sky_prior sd) = ?shp"
    using consistent_shapes[OF cons] by simp_all
  have c0: "compress (map ?P dls) dls = filter ?P dls" by (rule compress_map_id)
  have ex1: "\<forall>q\<in>set (filter ?P dls). \<exists>c. norm_key (shape (dense_sky_prior sd)) q = Some c"
    using consistent_within_cell(1)[OF cons] sh by auto
  have "map (\<lambda>q. cells (dense_sky_prior sd) (the (norm_key (shape (dense_sky_prior sd)) q)))
          (filter ?P dls) = map (prior_at sd) (filter ?P dls)"
    using consistent_within_cell(3)[OF cons] by (simp add: sh cell_of_def)
  then have ti: "take_items (dense_sky_prior sd) (filter ?P dls) = Inr (map (prior_at sd) (filter ?P dls))"
    using take_cells_Some[OF ex1] by (simp add: take_items_def comp_def)
  have sub: "map (\<lambda>p. 0 < p) (map (prior_at sd) (filter ?P dls)) = map ?Q (filter ?P dls)"
    by simp
  have m1: "mask_imul (map ?P dls) (map ?Q (filter ?P dls)) = map (selected sd) dls"
  proof -
    have "selected sd = (\<lambda>q. ?P q \<and> ?Q q)" by (rule ext) (simp add: selected_def)
    then show ?thesis by (simp add: mask_imul_map)
  qed
  have ff: "filter ?Q (filter ?P dls) = filter (selected sd) dls"
  proof -
    have "selected sd = (\<lambda>q. ?P q \<and> ?Q q)" by (rule ext) (simp add: selected_def)
    then show ?thesis by (simp add: conj_commute)
  qed
  have sp: "compress (map ?Q (filter ?P dls)) (map (prior_at sd) (filter ?P dls))
      = map (prior_at sd) (filter (selected sd) dls)"
    by (simp only: compress_map ff)
  have c1: "compress (map (selected sd) dls) dls = filter (selected sd) dls"
    by (rule compress_map_id)
  have ex2: "\<forall>q\<in>set (filter (selected sd) dls). \<exists>c. norm_key (shape (ind_generators sd)) q = Some c"
    using consistent_within_cell(1)[OF cons] sh by (auto simp: selected_def)
  have tc: "take_cells (ind_generators sd) (filter (selected sd) dls)
      = Inr (map (cell_of sd) (filter (selected sd) dls))"
    using take_cells_Some[OF ex2] by (simp add: sh cell_of_def)
  show ?thesis
    by (simp only: get_sky_inds_and_prior_def Let_def c0 ti sum.case sub m1 sp c1 tc)
qed

lemma same_static_fields:
  assumes "same_static sd sd'"
  shows "min_delay sd' = min_delay sd" "max_delay sd' = max_delay sd"
    "dense_sky_prior sd' = dense_sky_prior sd" "delays2inds_map sd' = delays2inds_map sd"
    "f_sampling sd' = f_sampling sd" "nsky sd' = nsky sd" "detector_names sd' = detector_names sd"
proof -
  have e: "sd = sd'\<lparr>ind_generators := ind_generators sd\<rparr>" using assms by (simp add: same_static_def)
  show "min_delay sd' = min_delay sd" using arg_cong[OF e, of min_delay] by simp
  show "max_delay sd' = max_delay sd" using arg_cong[OF e, of max_delay] by simp
  show "dense_sky_prior sd' = dense_sky_prior sd" using arg_cong[OF e, of dense_sky_prior] by simp
  show "delays2inds_map sd' = delays2inds_map sd" using arg_cong[OF e, of delays2inds_map] by simp
  show "f_sampling sd' = f_sampling sd" using arg_cong[OF e, of f_sampling] by simp
  show "nsky sd' = nsky sd" using arg_cong[OF e, of nsky] by simp
  show "detector_names sd' = detector_names sd" using arg_cong[OF e, of detector_names] by simp
qed

lemma same_static_refl: "same_static sd sd"
  by (simp add: same_static_def)

lemma same_static_trans:
  assumes "same_static a b" "same_static b c"
  shows "same_static a c"
proof -
  have 1: "a = b\<lparr>ind_generators := ind_generators a\<rparr>"
    and 2: "b = c\<lparr>ind_generators := ind_generators b\<rparr>"
    using assms by (simp_all add: same_static_def)
  note 1
  also have "b\<lparr>ind_generators := ind_generators a\<rparr>
      = (c\<lparr>ind_generators := ind_generators b\<rparr>)\<lparr>ind_generators := ind_generators a\<rparr>"
    using 2 by (rule arg_cong)
  also have "\<dots> = c\<lparr>ind_generators := ind_generators a\<rparr>" by simp
  finally show ?thesis by (simp add: same_static_def)
qed

lemma same_static_preds:
  assumes "same_static sd sd'"
  shows "within_range sd' = within_range sd" "prior_at sd' = prior_at sd"
    "selected sd' = selected sd" "cell_of sd' = cell_of sd"
proof -
  note f = same_static_fields[OF assms]
  show a: "within_range sd' = within_range sd" by (rule ext) (simp add: within_range_def f)
  show b: "prior_at sd' = prior_at sd" by (rule ext) (simp add: prior_at_def f)
  show "selected sd' = selected sd" by (rule ext) (simp add: selected_def a b)
  show "cell_of sd' = cell_of sd" by (rule ext) (simp add: cell_of_def f)
qed

lemma selected_live:
  assumes cons: "consistent sd" and s: "selected sd q"
  shows "live (cells (ind_generators sd) (cell_of sd q))"
proof -
  have r: "within_range sd q" and p: "0 < prior_at sd q" using s by (simp_all add: selected_def)
  have st: "cell_state sd q (cell_of sd q)" using consistent_within_cell(2)[OF cons r] .
  have pe: "prior_at sd q = cells (dense_sky_prior sd) (cell_of sd q)"
    using consistent_within_cell(3)[OF cons r] .
  show ?thesis
  proof (cases "map_of (delays2inds_map sd) q")
    case None
    then have "cells (dense_sky_prior sd) (cell_of sd q) = 0" using st by (simp add: cell_state_def)
    then show ?thesis using p pe by simp
  next
    case (Some inds)
    then obtain pos where "pos < length inds" "cells (ind_generators sd) (cell_of sd q) = Cycle inds pos"
      using st by (auto simp: cell_state_def)
    then show ?thesis by (simp add: live_def)
  qed
qed

lemma cell_state_same_cycle:
  assumes "cell_state sd q c" "same_static sd sd'"
    and "same_cycle (cells (ind_generators sd) c) (cells (ind_generators sd') c)"
  shows "cell_state sd' q c"
proof (cases "map_of (delays2inds_map sd) q")
  case None
  then show ?thesis
    using assms by (simp add: cell_state_def same_static_fields[OF assms(2)] same_cycle_def)
next
  case (Some inds)
  with assms(1) obtain pos where pos: "pos < length inds"
    "cells (ind_generators sd) c = Cycle inds pos"
    by (auto simp: cell_state_def)
  with assms(3) obtain pos' where "pos' < length inds"
    "cells (ind_generators sd') c = Cycle inds pos'"
    by (cases "cells (ind_generators sd') c") (simp_all add: same_cycle_def)
  then show ?thesis
    using assms(1) Some by (simp add: cell_state_def same_static_fields[OF assms(2)])
qed

lemma query_step:
  assumes cons: "consistent sd"
  obtains r sd' where "get_sky_inds_and_prior sd dls = Inr (r, sd')"
    "physical_mask r = map (selected sd) dls"
    "sky_prior r = map (prior_at sd) (filter (selected sd) dls)"
    "length (sky_inds r) = length (filter (selected sd) dls)"
    "\<not> stop_iteration r"
    "consistent sd'" "same_static sd sd'"
    "\<forall>c. same_cycle (cells (ind_generators sd) c) (cells (ind_generators sd') c)"
    "\<forall>c. c \<notin> cell_of sd ` set (filter (selected sd) dls)
        \<longrightarrow> cells (ind_generators sd') c = cells (ind_generators sd) c"
proof -
  let ?cs = "map (cell_of sd) (filter (selected sd) dls)"
  let ?G = "cells (ind_generators sd)"
  have "\<forall>c\<in>set ?cs. live (?G c)" using selected_live[OF cons] by auto
  from map_next_live[OF this] obtain inds G' where mn: "map_next ?G ?cs = (inds, G', False)"
    and li: "length inds = length ?cs"
    and other: "\<forall>c. c \<notin> set ?cs \<longrightarrow> G' c = ?G c"
    and cyc: "\<forall>c. same_cycle (?G c) (G' c)"
    by blast
  define r where "r = \<lparr>sky_inds = inds, sky_prior = map (prior_at sd) (filter (selected sd) dls),
                physical_mask = map (selected sd) dls, stop_iteration = False\<rparr>"
  define sd' where "sd' = sd\<lparr>ind_generators := (ind_generators sd)\<lparr>cells := G'\<rparr>\<rparr>"
  have res: "get_sky_inds_and_prior sd dls = Inr (r, sd')"
    by (simp add: query_unfold[OF cons] mn r_def sd'_def)
  have ss: "same_static sd sd'" by (simp add: same_static_def sd'_def)
  have g': "cells (ind_generators sd') = G'" "shape (ind_generators sd') = shape (ind_generators sd)"
    by (simp_all add: sd'_def)
  have cons': "consistent sd'"
    unfolding consistent_def
  proof (intro conjI allI impI)
    note f = same_static_fields[OF ss]
    show "length (min_delay sd') = length (max_delay sd')"
      using cons by (simp add: consistent_def f)
    show "shape (ind_generators sd') = dense_shape (min_delay sd') (max_delay sd')"
      using cons by (simp add: consistent_def f g')
    show "shape (dense_sky_prior sd') = dense_shape (min_delay sd') (max_delay sd')"
      using cons by (simp add: consistent_def f)
    fix j assume "j < length (max_delay sd')"
    then show "min_delay sd' ! j \<le> 0" "- 1 \<le> max_delay sd' ! j"
      using cons by (simp_all add: consistent_def f)
  next
    fix q c assume "within_range sd' q"
      and c: "norm_key (dense_shape (min_delay sd') (max_delay sd')) q = Some c"
    then have "within_range sd q" "norm_key (dense_shape (min_delay sd) (max_delay sd)) q = Some c"
      by (simp_all add: same_static_preds[OF ss] same_static_fields[OF ss])
    then have "cell_state sd q c" using cons by (simp add: consistent_def)
    then show "cell_state sd' q c"
      using cell_state_same_cycle[OF _ ss] cyc g' by simp
  qed
  have o: "\<forall>c. c \<notin> cell_of sd ` set (filter (selected sd) dls)
        \<longrightarrow> cells (ind_generators sd') c = cells (ind_generators sd) c"
    using other g' by simp
  show ?thesis
    using that[OF res _ _ _ _ cons' ss] cyc g' o li by (simp add: r_def)
qed

lemma query_seq_consistent:
  assumes "consistent sd"
  shows "\<exists>rs sd'. query_seq sd calls = Inr (rs, sd') \<and> consistent sd' \<and> same_static sd sd'
           \<and> (\<forall>r\<in>set rs. \<not> stop_iteration r)"
  using assms
proof (induction calls arbitrary: sd)
  case Nil
  then show ?case by (simp add: same_static_refl)
next
  case (Cons dls calls)
  from Cons.prems obtain r sd1 where r: "get_sky_inds_and_prior sd dls = Inr (r, sd1)"
    "\<not> stop_iteration r" "consistent sd1" "same_static sd sd1"
    by (rule query_step)
  from Cons.IH[OF r(3)] obtain rs sd' where rs: "query_seq sd1 calls = Inr (rs, sd')"
    "consistent sd'" "same_static sd1 sd'" "\<forall>r\<in>set rs. \<not> stop_iteration r"
    by blast
  have "query_seq sd (dls # calls) = Inr (r # rs, sd')" using r(1) rs(1) by simp
  then show ?case using rs(2,4) r(2) same_static_trans[OF r(4) rs(3)] by simp
qed

lemma query_seq_reach:
  assumes "consistent sd" "query_seq sd calls = Inr (rs, sd')"
  shows "consistent sd'" "same_static sd sd'"
  using query_seq_consistent[OF assms(1), of calls] assms(2) by auto

lemma prior_value_pos:
  assumes "prior_value f nd n len = Inr v" "0 < f" "0 < n" "0 < len"
  shows "0 < v"
proof -
  from assms(1) obtain p where p: "py_pow f (nd - 1) = Inr p" and v: "v = p * of_nat len / of_int n"
    by (auto simp: prior_value_def split: sum.splits if_splits)
  have "0 < p" using p assms(2) by (auto simp: py_pow_def split: if_splits)
  then show ?thesis using v assms(3,4) by simp
qed

lemma prior_at_nonneg:
  assumes cons: "consistent sd" and pos: "0 < f_sampling sd" "0 < nsky sd"
    and r: "within_range sd q"
  shows "0 \<le> prior_at sd q"
proof -
  have st: "cell_state sd q (cell_of sd q)" using consistent_within_cell(2)[OF cons r] .
  have pe: "prior_at sd q = cells (dense_sky_prior sd) (cell_of sd q)"
    using consistent_within_cell(3)[OF cons r] .
  show ?thesis
  proof (cases "map_of (delays2inds_map sd) q")
    case None
    then show ?thesis using st pe by (simp add: cell_state_def)
  next
    case (Some inds)
    then have "inds \<noteq> []" and pv: "prior_value (f_sampling sd) (int (length (detector_names sd)))
        (nsky sd) (length inds) = Inr (cells (dense_sky_prior sd) (cell_of sd q))"
      using st by (simp_all add: cell_state_def)
    then have "0 < length inds" by simp
    from prior_value_pos[OF pv pos this] show ?thesis using pe by simp
  qed
qed

lemma length_filter_id_map: "length (filter id (map P xs)) = length (filter P xs)"
  by (induction xs) simp_all

lemma query_properties:
  assumes ok: "init names f n samples fpfc gd = Inr sd0"
    and reach: "query_seq sd0 calls = Inr (rs, sd)"
  obtains r sd' where "get_sky_inds_and_prior sd dls = Inr (r, sd')"
    "physical_mask r = map (selected sd) dls"
    "sky_prior r = map (prior_at sd) (filter (selected sd) dls)"
    "length (sky_inds r) = length (filter (selected sd) dls)"
    "\<not> stop_iteration r"
    "\<forall>c. same_cycle (cells (ind_generators sd) c) (cells (ind_generators sd') c)"
    "\<forall>c. c \<notin> cell_of sd ` set (filter (selected sd) dls)
        \<longrightarrow> cells (ind_generators sd') c = cells (ind_generators sd) c"
    "consistent sd" "f_sampling sd = f" "nsky sd = n"
proof -
  have c0: "consistent sd0" using init_fresh(1)[OF ok] .
  have cons: "consistent sd" and ss: "same_static sd0 sd"
    using query_seq_reach[OF c0 reach] by simp_all
  from ok have "f_sampling sd0 = f \<and> nsky sd0 = n" by (rule init_InrE) simp
  then have fn: "f_sampling sd = f" "nsky sd = n" using same_static_fields[OF ss] by simp_all
  from cons obtain r sd' where "get_sky_inds_and_prior sd dls = Inr (r, sd')"
    "physical_mask r = map (selected sd) dls"
    "sky_prior r = map (prior_at sd) (filter (selected sd) dls)"
    "length (sky_inds r) = length (filter (selected sd) dls)"
    "\<not> stop_iteration r"
    "consistent sd'" "same_static sd sd'"
    "\<forall>c. same_cycle (cells (ind_generators sd) c) (cells (ind_generators sd') c)"
    "\<forall>c. c \<notin> cell_of sd ` set (filter (selected sd) dls)
        \<longrightarrow> cells (ind_generators sd') c = cells (ind_generators sd) c"
    by (rule query_step)
  then show ?thesis using that cons fn by blast
qed

lemma ex_prior_at:
  "prior_at ex_sd [0] = 1 / 2" "prior_at ex_sd [- 2] = 1 / 4" "prior_at ex_sd [- 1] = 0"
proof -
  have l: "length ex_gd = length ex_names" by (simp add: ex_gd_def ex_names_def)
  have r: "within_range ex_sd [- 1]" by (simp add: within_range_def ex_min_max)
  show "prior_at ex_sd [0] = 1 / 2"
    using prior_entries[OF ex_init l, of "[0]"] by (simp add: prior_at_def ex_sample_keys ex_names_def)
  show "prior_at ex_sd [- 2] = 1 / 4"
    using prior_entries[OF ex_init l, of "[- 2]"] by (simp add: prior_at_def ex_sample_keys ex_names_def)
  show "prior_at ex_sd [- 1] = 0"
    using prior_entries[OF ex_init l, of "[- 1]"] r by (simp add: prior_at_def ex_sample_keys)
qed

lemma ex_query_seq_Nil: "query_seq ex_sd [] = Inr ([], ex_sd)"
  by simp








lemma cycle_once: "map (\<lambda>j. inds ! (j mod length inds)) [0..<length inds] = inds"
proof -
  have "map (\<lambda>j. inds ! (j mod length inds)) [0..<length inds] = map ((!) inds) [0..<length inds]"
    by (rule map_cong[OF refl]) simp
  then show ?thesis by (simp only: map_nth)
qed

lemma cycle_wraps:
  assumes "inds \<noteq> []"
  shows "map (\<lambda>j. inds ! (j mod length inds)) [0..<length inds + 1] = inds @ [hd inds]"
proof -
  have "[0..<length inds + 1] = [0..<length inds] @ [length inds]" by simp
  then have "map (\<lambda>j. inds ! (j mod length inds)) [0..<length inds + 1]
      = map (\<lambda>j. inds ! (j mod length inds)) [0..<length inds] @ [inds ! (length inds mod length inds)]"
    by (simp only: map_append list.map)
  also have "\<dots> = inds @ [inds ! 0]" by (simp only: cycle_once mod_self)
  also have "\<dots> = inds @ [hd inds]" using hd_conv_nth[OF assms] by simp
  finally show ?thesis .
qed


lemma zip_star_empty_rows:
  assumes "\<forall>r\<in>set rows. r = []"
  shows "zip_star rows = []"
proof (cases rows)
  case Nil
  then show ?thesis by (simp add: zip_star_def)
next
  case (Cons r rs)
  then have "r = []" "\<forall>x\<in>set rs. length x = 0" using assms by auto
  then have "fold (\<lambda>x m. min (length x) m) rs (length r) = 0"
    using fold_min_length[of rs 0] by simp
  then show ?thesis using Cons by (simp add: zip_star_def)
qed

lemma sequence_Cons_Inr:
  assumes "sequence (map g (x # xs)) = Inr vs"
  obtains v vs' where "g x = Inr v" "sequence (map g xs) = Inr vs'" "vs = v # vs'"
  using assms by (simp split: sum.splits)

lemma sequence_length:
  "sequence (map g xs) = Inr vs \<Longrightarrow> length vs = length xs"
proof (induction xs arbitrary: vs)
  case Nil
  then show ?case by simp
next
  case (Cons x xs)
  from Cons.prems obtain v vs' where "sequence (map g xs) = Inr vs'" "vs = v # vs'"
    by (rule sequence_Cons_Inr)
  then show ?case using Cons.IH by simp
qed

lemma init_empty_index:
  assumes "gd = g0 # rest" "\<forall>r\<in>set rest. r = [] \<or> g0 = []"
  shows "init names f n samples fpfc gd = Inl (ValueError, built_before_min)"
proof -
  let ?dls = "map (\<lambda>row. map2 (-) row g0) rest"
  have "\<forall>r\<in>set (map (map (discretize f)) ?dls). r = []" using assms(2) by auto
  then have "zip_star (map (map (discretize f)) ?dls) = []" by (rule zip_star_empty_rows)
  then have "create_delays2inds_map f ?dls = []"
    by (simp add: create_delays2inds_map_build build_Nil)
  then show ?thesis
    by (simp add: init_def assms(1) Let_def amin_axis0_def built_before_min_def)
qed





section \<open>The histograms of pairwise delays\<close>

lemma sequence_map_of:
  assumes "sequence (map g xs) = Inr vs" "x \<in> set xs"
  shows "\<exists>v. g x = Inr v \<and> map_of (zip xs (map fst vs)) x = Some (fst v)"
  using assms
proof (induction xs arbitrary: vs)
  case Nil
  then show ?case by simp
next
  case (Cons y xs)
  from Cons.prems(1) obtain v vs' where v: "g y = Inr v" "sequence (map g xs) = Inr vs'"
    "vs = v # vs'"
    by (rule sequence_Cons_Inr)
  show ?case
  proof (cases "x = y")
    case True
    then show ?thesis using v by simp
  next
    case False
    then have "x \<in> set xs" using Cons.prems(2) by simp
    from Cons.IH[OF v(2) this] show ?thesis using False v(3) by simp
  qed
qed

lemma delays_prior_entry_Inr:
  assumes "delays_prior_entry f gd w order = Inr hb"
  obtains pd mins maxs where "pairwise_delays f gd order = Inr pd"
    "sequence (map amin pd) = Inr mins" "sequence (map amax pd) = Inr maxs"
    "fst hb = histogramdd (zip_star pd) w
       (map2 bin_edges (map (\<lambda>m. m - 1) mins) (map (\<lambda>m. m + 1) maxs))"
  using assms unfolding delays_prior_entry_def Let_def
  by (auto split: sum.splits if_splits)

lemma pairwise_delays_length:
  "pairwise_delays f gd order = Inr pd \<Longrightarrow> length pd = length order - 1"
  by (auto simp: pairwise_delays_def split: if_splits)

lemma init_delays_prior:
  assumes ok: "init names f n samples fpfc gd = Inr sd"
    and order: "order \<in> set (detector_orders (length names))"
  obtains pd mins maxs where "pairwise_delays f gd order = Inr pd"
    "sequence (map amin pd) = Inr mins" "sequence (map amax pd) = Inr maxs"
    "map_of (delays_prior sd) order
       = Some (histogramdd (zip_star pd) (antenna_weights fpfc)
           (map2 bin_edges (map (\<lambda>m. m - 1) mins) (map (\<lambda>m. m + 1) maxs)))"
proof -
  from ok obtain entries where
    e: "sequence (map (delays_prior_entry f gd (antenna_weights fpfc))
       (detector_orders (length names))) = Inr entries"
    and dp: "delays_prior sd = zip (detector_orders (length names)) (map fst entries)"
    by (rule init_InrE)
  from sequence_map_of[OF e order] obtain hb where
    hb: "delays_prior_entry f gd (antenna_weights fpfc) order = Inr hb"
    "map_of (delays_prior sd) order = Some (fst hb)"
    using dp by auto
  from hb(1) obtain pd mins maxs where "pairwise_delays f gd order = Inr pd"
    "sequence (map amin pd) = Inr mins" "sequence (map amax pd) = Inr maxs"
    "fst hb = histogramdd (zip_star pd) (antenna_weights fpfc)
       (map2 bin_edges (map (\<lambda>m. m - 1) mins) (map (\<lambda>m. m + 1) maxs))"
    by (rule delays_prior_entry_Inr)
  then show ?thesis using that hb(2) by simp
qed

lemma ex3_init: "init ex3_names 1 1 [(0, 0)] ex3_fpfc ex3_gd = Inr ex3_sd"
proof -
  have k: "sample_keys 1 ex3_gd = [[0, 0]]"
    by (simp add: sample_keys_def ex3_gd_def zip_star_def discretize_def rint_numerals)
  have l: "length ex3_gd - 1 = 2" by (simp add: ex3_gd_def)
  have u: "[0..<2] = [0, Suc 0]" by (simp add: upt_rec)
  have "spans_origin [[0, 0]] 2" by (simp add: u spans_origin_def)
  then have "spans_origin (sample_keys 1 ex3_gd) (length ex3_gd - 1)"
    by (simp only: k l)
  moreover have "\<forall>row\<in>set ex3_gd. length row = 1" by (simp add: ex3_gd_def)
  moreover have "2 \<le> length ex3_gd" "length ex3_names = length ex3_gd"
    by (simp_all add: ex3_gd_def ex3_names_def)
  ultimately obtain sd where "init ex3_names 1 1 [(0, 0)] ex3_fpfc ex3_gd = Inr sd"
    using init_succeeds[of ex3_gd ex3_names 1 1 1 "[(0, 0)]" ex3_fpfc] by auto
  then show ?thesis by (simp add: ex3_sd_def)
qed

lemma upt_3: "[0..<3] = [0, 1, 2]"
  by (simp add: upt_rec)

lemma ex3_orders: "[0, 1] \<in> set (detector_orders 3)" "[2, 0, 1] \<in> set (detector_orders 3)"
  by (simp_all add: detector_orders_def upt_3 upt_rec eval_nat_numeral)

lemma sqrt_25: "sqrt 25 = 5" "sqrt 9 = 3"
  using real_sqrt_abs[of 5] real_sqrt_abs[of 3] by simp_all

lemma ex3_weights: "antenna_weights ex3_fpfc = [125]"
  by (simp add: antenna_weights_def ex3_fpfc_def frobenius_norm_def sqrt_25)

lemma ex3_subset_weight: "subset_weight (ex3_fpfc ! 0) [0, 1] = 27"
  by (simp add: subset_weight_def ex3_fpfc_def frobenius_norm_def sqrt_25)

lemma ex3_pairwise: "pairwise_delays 1 ex3_gd [0, 1] = Inr [[0]]"
  by (simp add: pairwise_delays_def ex3_gd_def discretize_def rint_numerals)

lemma ex3_bins: "map2 bin_edges (map (\<lambda>m. m - 1) [0]) (map (\<lambda>m. m + 1) [0]) = [[- (1 / 2), 1 / 2]]"
proof -
  have "[- 1..0::int] = [- 1, 0]" by (simp add: upto.simps)
  then show ?thesis by (simp add: bin_edges_def)
qed

lemma ex3_sample_bin: "sample_bin [[- (1 / 2), 1 / 2]] [0] = Some c \<longleftrightarrow> c = [0]"
  by (auto simp: sample_bin_def bin_index_def)

lemma permutations_distinct:
  "p \<in> set (permutations xs r) \<Longrightarrow> distinct xs \<Longrightarrow> distinct p"
proof (induction r arbitrary: xs p)
  case 0
  then show ?case by simp
next
  case (Suc r)
  from Suc.prems(1) obtain i p' where i: "i < length xs" and p: "p = xs ! i # p'"
    and p': "p' \<in> set (permutations (take i xs @ drop (Suc i) xs) r)"
    by auto
  define a where "a = take i xs"
  define b where "b = drop (Suc i) xs"
  define x where "x = xs ! i"
  have e: "xs = a @ x # b" unfolding a_def b_def x_def by (rule id_take_nth_drop[OF i])
  have "distinct (a @ x # b)" using Suc.prems(2) e by simp
  then have d: "distinct (a @ b)" and n: "x \<notin> set (a @ b)" by auto
  have q: "p' \<in> set (permutations (a @ b) r)" using p' by (simp add: a_def b_def)
  have "distinct p'" using Suc.IH[OF q d] .
  moreover have "set p' \<subseteq> set (a @ b)" using permutations_set[OF q] by simp
  ultimately show ?case using n p by (auto simp: x_def)
qed

lemma sum_list_rows_permute:
  assumes d: "distinct order" and l: "length order = length m"
    and s: "set order \<subseteq> {0..<length m}"
  shows "sum_list (map g (map ((!) m) order)) = (sum_list (map g m) :: real)"
proof -
  have "card (set order) = card {0..<length m}" using d l by (simp add: distinct_card)
  then have e: "set order = {0..<length m}" using s by (simp add: card_subset_eq)
  have "sum_list (map g (map ((!) m) order)) = sum_list (map (\<lambda>i. g (m ! i)) order)"
    by (simp add: comp_def)
  also have "\<dots> = sum (\<lambda>i. g (m ! i)) (set order)" using d by (rule sum_list_distinct_conv_sum_set)
  also have "\<dots> = sum (\<lambda>i. g (m ! i)) (set [0..<length m])" using e by simp
  also have "\<dots> = sum_list (map (\<lambda>i. g (m ! i)) [0..<length m])"
    by (rule sum_list_distinct_conv_sum_set[symmetric]) simp
  also have "map (\<lambda>i. g (m ! i)) [0..<length m] = map g (map ((!) m) [0..<length m])"
    by (simp add: comp_def)
  also have "map ((!) m) [0..<length m] = m" by (rule map_nth)
  finally show ?thesis .
qed

lemma sum_list_squares_concat:
  "sum_list (map (\<lambda>x. x ^ 2) (concat xs))
     = (sum_list (map (\<lambda>r. sum_list (map (\<lambda>x. x ^ 2) r)) xs) :: real)"
  by (induction xs) simp_all

lemma frobenius_norm_permute:
  assumes "order \<in> set (permutations [0..<length m] (length m))"
  shows "frobenius_norm (map ((!) m) order) = frobenius_norm m"
proof -
  have d: "distinct order" using assms by (rule permutations_distinct) simp
  have s: "set order \<subseteq> {0..<length m}" and l: "length order = length m"
    using permutations_set[OF assms] by simp_all
  show ?thesis
    unfolding frobenius_norm_def sum_list_squares_concat
    by (simp only: sum_list_rows_permute[OF d l s])
qed

lemma detector_orders_full:
  assumes "order \<in> set (detector_orders n)" "length order = n"
  shows "order \<in> set (permutations [0..<n] n)"
proof -
  from assms(1) obtain r where r: "order \<in> set (permutations [0..<n] r)"
    by (auto simp: detector_orders_def)
  from permutations_set[OF r] assms(2) have "r = n" by simp
  then show ?thesis using r by simp
qed

lemma ex3_cell:
  obtains h where "map_of (delays_prior ex3_sd) [0, 1] = Some h" "cells h [0] = 125"
proof -
  have l3: "length ex3_names = 3" by (simp add: ex3_names_def)
  have o: "[0, 1] \<in> set (detector_orders (length ex3_names))"
    using ex3_orders(1) by (simp only: l3)
  from ex3_init o obtain pd mins maxs where pd: "pairwise_delays 1 ex3_gd [0, 1] = Inr pd"
    and mins: "sequence (map amin pd) = Inr mins" and maxs: "sequence (map amax pd) = Inr maxs"
    and h: "map_of (delays_prior ex3_sd) [0, 1]
       = Some (histogramdd (zip_star pd) (antenna_weights ex3_fpfc)
           (map2 bin_edges (map (\<lambda>m. m - 1) mins) (map (\<lambda>m. m + 1) maxs)))"
    by (rule init_delays_prior)
  have p: "pd = [[0]]" using pd unfolding ex3_pairwise by simp
  have mn: "mins = [0]" using mins by (simp add: p amin_def)
  have mx: "maxs = [0]" using maxs by (simp add: p amax_def)
  have z: "zip_star [[0::int]] = [[0]]" by (simp add: zip_star_def)
  have "cells (histogramdd (zip_star pd) (antenna_weights ex3_fpfc)
           (map2 bin_edges (map (\<lambda>m. m - 1) mins) (map (\<lambda>m. m + 1) maxs))) [0] = 125"
    unfolding p mn mx z ex3_bins ex3_weights
    by (simp add: histogramdd_def ex3_sample_bin)
  then show ?thesis using that h by blast
qed

section \<open>The properties of the specification\<close>

text \<open>Claim C8: the lists of the Delay Index hold \<open>nsky\<close> sample indices altogether, so the
  sum of \<open>bucket_size / nsky\<close> over the keys of the index is exactly 1. The rows of the
  geocenter delays have \<open>nsky\<close> entries each, as the sampler draws \<open>nsky\<close> samples.\<close>

theorem bucket_sizes_sum_to_nsky:
  assumes ok: "init names f n samples fpfc gd = Inr sd"
    and rect: "\<forall>row\<in>set gd. int (length row) = n"
  shows "int (sum_list (map (\<lambda>kv. length (snd kv)) (delays2inds_map sd))) = nsky sd
       \<and> (\<Sum>kv\<leftarrow>delays2inds_map sd. real (length (snd kv)) / real_of_int (nsky sd)) = 1"
proof -
  from ok obtain g0 rest mn where gd: "gd = g0 # rest"
    and d2i: "delays2inds_map sd = create_delays2inds_map f (map (\<lambda>row. map2 (-) row g0) rest)"
    and mn: "amin_axis0 (map fst (delays2inds_map sd)) = Inr mn"
    and n: "nsky sd = n"
    by (rule init_InrE)
  let ?dls = "map (\<lambda>row. map2 (-) row g0) rest"
  have ne: "delays2inds_map sd \<noteq> []" using amin_axis0_Inr[OF mn] by simp
  then have rest: "rest \<noteq> []" using d2i create_Nil by auto
  have len: "\<forall>r\<in>set ?dls. length r = nat n" using rect gd by auto
  have total: "sum_list (map (\<lambda>kv. length (snd kv)) (delays2inds_map sd)) = nat n"
    unfolding d2i using rest len by (intro sum_length_create) auto
  obtain kv where kv: "kv \<in> set (delays2inds_map sd)" using ne by (cases "delays2inds_map sd") auto
  have npos: "0 \<le> n" using rect gd by auto
  have "set (zip_star (map (map (discretize f)) ?dls)) \<noteq> {}"
    using kv keys_create[of f ?dls] d2i by auto
  moreover have "length (zip_star (map (map (discretize f)) ?dls)) = nat n"
    using rest len by (intro length_zip_star_discretize) auto
  ultimately have n1: "0 < nat n" by (metis length_greater_0_conv set_empty)
  have "(\<Sum>kv\<leftarrow>delays2inds_map sd. real (length (snd kv)) / real_of_int n) = real (nat n) / real_of_int n"
    by (simp only: sum_list_divide total)
  also have "\<dots> = 1" using n1 by simp
  finally show ?thesis using total n n1 by simp
qed

theorem bucket_sizes_sum_to_nsky_witness:
  "nsky ex_sd = 4
   \<and> int (sum_list (map (\<lambda>kv. length (snd kv)) (delays2inds_map ex_sd))) = nsky ex_sd
   \<and> (\<Sum>kv\<leftarrow>delays2inds_map ex_sd. real (length (snd kv)) / real_of_int (nsky ex_sd)) = 1"
proof -
  have "\<forall>row\<in>set ex_gd. int (length row) = 4" by (simp add: ex_gd_def)
  from bucket_sizes_sum_to_nsky[OF ex_init this] init_InrE[OF ex_init]
  show ?thesis by metis
qed

text \<open>Claim C5: for every sample index \<open>i\<close> below \<open>nsky\<close>, the discretized Relative Delay
  Vector of sample \<open>i\<close> is a key of \<open>delays2inds_map\<close>, the list stored under it contains \<open>i\<close>,
  and \<open>i\<close> is in the list of exactly one item of the dictionary. The rows of the geocenter
  delays have \<open>nsky\<close> entries each, as the sampler draws \<open>nsky\<close> samples.\<close>

theorem every_sample_in_one_bucket:
  assumes ok: "init names f n samples fpfc gd = Inr sd"
    and rect: "\<forall>row\<in>set gd. int (length row) = n"
    and i: "i < nat (nsky sd)"
  shows "(\<exists>inds. map_of (delays2inds_map sd) (sample_keys f gd ! i) = Some inds \<and> i \<in> set inds)
       \<and> length (filter (\<lambda>kv. i \<in> set (snd kv)) (delays2inds_map sd)) = 1"
proof -
  let ?ks = "sample_keys f gd"
  have d2i: "delays2inds_map sd = build 0 ?ks []" using init_sample_keys(1)[OF ok] .
  have n: "nsky sd = n" using ok by (rule init_InrE)
  have "\<forall>row\<in>set gd. length row = nat n" using rect by auto
  then have len: "length ?ks = nat n" using init_two_rows[OF ok] by (intro length_sample_keys) auto
  then have il: "i < length ?ks" using i n by simp
  then have mem: "i \<in> set (positions 0 ?ks (?ks ! i))" by (simp add: set_positions)
  then have ne: "positions 0 ?ks (?ks ! i) \<noteq> []" by auto
  have m: "map_of (delays2inds_map sd) (?ks ! i) = Some (positions 0 ?ks (?ks ! i))"
    using ne by (simp add: d2i map_of_build)
  have dist: "distinct (map fst (delays2inds_map sd))" by (simp add: d2i distinct_build)
  have key: "?ks ! i \<in> fst ` set (delays2inds_map sd)"
    using il by (simp add: d2i set_keys_build)
  have "filter (\<lambda>kv. i \<in> set (snd kv)) (delays2inds_map sd)
      = filter (\<lambda>kv. fst kv = ?ks ! i) (delays2inds_map sd)"
  proof (rule filter_cong[OF refl])
    fix kv assume kv: "kv \<in> set (delays2inds_map sd)"
    then have "map_of (delays2inds_map sd) (fst kv) = Some (snd kv)"
      using dist by simp
    then have "snd kv = positions 0 ?ks (fst kv)"
      by (simp add: d2i map_of_build build_Nil split: if_splits)
    then show "(i \<in> set (snd kv)) = (fst kv = ?ks ! i)"
      using il by (auto simp: set_positions)
  qed
  then have "length (filter (\<lambda>kv. i \<in> set (snd kv)) (delays2inds_map sd)) = 1"
    using length_filter_key[OF dist key] by simp
  then show ?thesis using m mem by simp
qed

theorem every_sample_in_one_bucket_witness:
  "2 < nat (nsky ex_sd)
   \<and> (\<exists>inds. map_of (delays2inds_map ex_sd) (sample_keys 1 ex_gd ! 2) = Some inds \<and> 2 \<in> set inds)
   \<and> length (filter (\<lambda>kv. 2 \<in> set (snd kv)) (delays2inds_map ex_sd)) = 1"
proof -
  have r: "\<forall>row\<in>set ex_gd. int (length row) = 4" by (simp add: ex_gd_def)
  have n: "nsky ex_sd = 4" using ex_init by (rule init_InrE)
  then have i: "2 < nat (nsky ex_sd)" by simp
  from every_sample_in_one_bucket[OF ex_init r i] i show ?thesis by simp
qed

text \<open>Claim C2: at every key produced by at least one sample, the Dense Prior Array holds
  \<open>f_sampling ^ (n_det - 1)\<close> times the number of samples with that key, divided by \<open>nsky\<close>; at
  every key within the Delay Range that no sample produces it holds exactly zero. One row
  of geocenter delays is given per detector.\<close>

theorem dense_prior_entries:
  assumes ok: "init names f n samples fpfc gd = Inr sd"
    and rows: "length gd = length names"
  shows "(k \<in> set (sample_keys f gd) \<longrightarrow>
            getitem (dense_sky_prior sd) k
              = Inr (of_int (f ^ (length names - 1))
                     * of_nat (length (filter (\<lambda>q. q = k) (sample_keys f gd))) / of_int n))
       \<and> (within_range sd k \<and> k \<notin> set (sample_keys f gd) \<longrightarrow>
            getitem (dense_sky_prior sd) k = Inr 0)"
  using ok rows by (rule prior_entries)

theorem dense_prior_entries_witness:
  "[0] \<in> set (sample_keys 1 ex_gd)
   \<and> getitem (dense_sky_prior ex_sd) [0] = Inr (1 / 2)
   \<and> within_range ex_sd [- 1] \<and> [- 1] \<notin> set (sample_keys 1 ex_gd)
   \<and> getitem (dense_sky_prior ex_sd) [- 1] = Inr 0"
proof -
  have l: "length ex_gd = length ex_names" by (simp add: ex_gd_def ex_names_def)
  have r: "within_range ex_sd [- 1]" by (simp add: within_range_def ex_min_max)
  show ?thesis
    using dense_prior_entries[OF ex_init l, of "[0]"] dense_prior_entries[OF ex_init l, of "[- 1]"] r
    by (simp add: ex_sample_keys ex_names_def)
qed

text \<open>Claim C4, as stated, fails: the dense arrays are not addressed by the key minus the
  recorded minimum. In the small network the key \<open>[- 2]\<close> is the minimum of the Delay Range,
  so its offset cell is \<open>[0]\<close>; both arrays store and look it up at cell \<open>[2]\<close>, and cell \<open>[0]\<close>
  holds the entry of the key \<open>[0]\<close>.\<close>

theorem offset_addressing_counterexample:
  "within_range ex_sd [- 2]
   \<and> offset_cell (min_delay ex_sd) [- 2] = [0]
   \<and> norm_key (shape (dense_sky_prior ex_sd)) [- 2] = Some [2]
   \<and> norm_key (shape (ind_generators ex_sd)) [- 2] = Some [2]
   \<and> getitem (dense_sky_prior ex_sd) [- 2] = Inr (1 / 4)
   \<and> cells (dense_sky_prior ex_sd) (offset_cell (min_delay ex_sd) [- 2]) = 1 / 2"
proof -
  have l: "length ex_gd = length ex_names" by (simp add: ex_gd_def ex_names_def)
  have a: "getitem (dense_sky_prior ex_sd) [- 2] = Inr (1 / 4)"
    using prior_entries[OF ex_init l, of "[- 2]"]
    by (simp add: ex_sample_keys ex_names_def)
  have "getitem (dense_sky_prior ex_sd) [0] = Inr (1 / 2)"
    using prior_entries[OF ex_init l, of "[0]"]
    by (simp add: ex_sample_keys ex_names_def)
  then have b: "cells (dense_sky_prior ex_sd) [0] = 1 / 2"
    by (simp add: getitem_def ex_shapes norm_index_def)
  show ?thesis
    using a b by (simp add: within_range_def ex_min_max offset_cell_def ex_shapes norm_index_def)
qed

text \<open>Claim C4, amended: both dense arrays are addressed by the key itself, read as numpy
  reads indices: a key within the Delay Range is stored and looked up, in both arrays, at
  the cell whose coordinates are the components of the key modulo the sizes
  \<open>max - min + 1\<close> of the axes; distinct keys within the range have distinct cells; and the
  cell holds the entry of that key (the cycle over its list, or the exhausted iterator).\<close>

theorem dense_arrays_addressed_by_wrapped_key:
  assumes ok: "init names f n samples fpfc gd = Inr sd"
    and r: "within_range sd q"
  shows "norm_key (shape (dense_sky_prior sd)) q = Some (wrap_cell (min_delay sd) (max_delay sd) q)
       \<and> norm_key (shape (ind_generators sd)) q = Some (wrap_cell (min_delay sd) (max_delay sd) q)
       \<and> (\<forall>q'. within_range sd q'
             \<and> wrap_cell (min_delay sd) (max_delay sd) q' = wrap_cell (min_delay sd) (max_delay sd) q
             \<longrightarrow> q' = q)
       \<and> cells (ind_generators sd) (wrap_cell (min_delay sd) (max_delay sd) q)
           = (case map_of (delays2inds_map sd) q of None \<Rightarrow> Exhausted | Some inds \<Rightarrow> Cycle inds 0)
       \<and> getitem (dense_sky_prior sd) q
           = Inr (cells (dense_sky_prior sd) (wrap_cell (min_delay sd) (max_delay sd) q))"
proof -
  have cons: "consistent sd" using init_fresh(1)[OF ok] .
  obtain c where c: "norm_key (dense_shape (min_delay sd) (max_delay sd)) q = Some c"
    and st: "cell_state sd q c"
    using consistent_cell[OF cons r] by blast
  have w: "c = wrap_cell (min_delay sd) (max_delay sd) q"
    using norm_key_wrap[OF c] by (simp add: wrap_cell_def)
  have g: "cells (ind_generators sd) c
      = (case map_of (delays2inds_map sd) q of None \<Rightarrow> Exhausted | Some inds \<Rightarrow> Cycle inds 0)"
  proof (cases "map_of (delays2inds_map sd) q")
    case None
    then show ?thesis using st by (simp add: cell_state_def)
  next
    case (Some inds)
    then show ?thesis using init_fresh(2)[OF ok Some c] by simp
  qed
  have inj: "\<forall>q'. within_range sd q'
             \<and> wrap_cell (min_delay sd) (max_delay sd) q' = wrap_cell (min_delay sd) (max_delay sd) q
             \<longrightarrow> q' = q"
    using wrap_cell_inj[OF cons r] by blast
  show ?thesis
    using c g inj unfolding w[symmetric] by (simp add: consistent_shapes[OF cons] getitem_def)
qed

theorem dense_arrays_addressed_by_wrapped_key_witness:
  "within_range ex_sd [- 2]
   \<and> wrap_cell (min_delay ex_sd) (max_delay ex_sd) [- 2] = [2]
   \<and> norm_key (shape (dense_sky_prior ex_sd)) [- 2] = Some [2]
   \<and> cells (ind_generators ex_sd) [2] = Cycle [0] 0"
proof -
  have r: "within_range ex_sd [- 2]" by (simp add: within_range_def ex_min_max)
  have w: "wrap_cell (min_delay ex_sd) (max_delay ex_sd) [- 2] = [2]"
    by (simp add: wrap_cell_def ex_min_max dense_shape_def)
  show ?thesis
    using dense_arrays_addressed_by_wrapped_key[OF ex_init r] r
    unfolding w by (simp add: ex_delays2inds_map)
qed

text \<open>Claim C1: for an object built with positive \<open>f_sampling\<close> and \<open>nsky\<close>, in any state
  reached by earlier queries, \<^verbatim>\<open>get_sky_inds_and_prior\<close> returns; \<open>physical_mask\<close> has one
  entry per query, True exactly when the query lies within the recorded Delay Range and
  the Dense Prior Array is nonzero at its key; \<open>sky_inds\<close> and \<open>sky_prior\<close> have as many
  entries as \<open>physical_mask\<close> has True ones; and \<open>sky_prior\<close> lists, in query order, the
  Dense Prior Array values of the surviving queries.\<close>

theorem query_mask_and_prior:
  assumes ok: "init names f n samples fpfc gd = Inr sd0"
    and pos: "0 < f" "0 < n"
    and reach: "query_seq sd0 calls = Inr (rs, sd)"
  shows "\<exists>r sd'. get_sky_inds_and_prior sd dls = Inr (r, sd')
       \<and> length (physical_mask r) = length dls
       \<and> physical_mask r = map (\<lambda>q. within_range sd q \<and> prior_at sd q \<noteq> 0) dls
       \<and> length (sky_inds r) = length (filter id (physical_mask r))
       \<and> length (sky_prior r) = length (filter id (physical_mask r))
       \<and> sky_prior r = map (prior_at sd) (filter (\<lambda>q. within_range sd q \<and> prior_at sd q \<noteq> 0) dls)"
proof -
  from ok reach obtain r sd' where r: "get_sky_inds_and_prior sd dls = Inr (r, sd')"
    "physical_mask r = map (selected sd) dls"
    "sky_prior r = map (prior_at sd) (filter (selected sd) dls)"
    "length (sky_inds r) = length (filter (selected sd) dls)"
    and cons: "consistent sd" and fn: "f_sampling sd = f" "nsky sd = n"
    by (rule query_properties)
  have "selected sd = (\<lambda>q. within_range sd q \<and> prior_at sd q \<noteq> 0)"
  proof (rule ext)
    fix q
    show "selected sd q = (within_range sd q \<and> prior_at sd q \<noteq> 0)"
      using prior_at_nonneg[OF cons, of q] pos fn by (auto simp: selected_def)
  qed
  then show ?thesis using r by (simp add: length_filter_id_map)
qed

text \<open>Claim C7: in every call of \<^verbatim>\<open>get_sky_inds_and_prior\<close>, in any state reached by earlier
  queries and for any delays, no \<^verbatim>\<open>next\<close> raises StopIteration, so \<open>sky_inds\<close> has one entry
  per surviving query; an iterator changes only in the cell of a query that passed the
  range filter and the test \<^verbatim>\<open>sky_prior > 0\<close>; such a cell never holds the exhausted
  iterator, and a cell that holds the exhausted iterator keeps it.\<close>

theorem no_cursor_exhaustion:
  assumes ok: "init names f n samples fpfc gd = Inr sd0"
    and reach: "query_seq sd0 calls = Inr (rs, sd)"
  shows "\<exists>r sd'. get_sky_inds_and_prior sd dls = Inr (r, sd')
       \<and> \<not> stop_iteration r
       \<and> length (sky_inds r) = length (filter id (physical_mask r))
       \<and> (\<forall>c. cells (ind_generators sd') c \<noteq> cells (ind_generators sd) c \<longrightarrow>
             (\<exists>q\<in>set dls. within_range sd q \<and> 0 < prior_at sd q \<and> c = cell_of sd q))
       \<and> (\<forall>q\<in>set dls. within_range sd q \<and> 0 < prior_at sd q \<longrightarrow>
             cells (ind_generators sd) (cell_of sd q) \<noteq> Exhausted)
       \<and> (\<forall>c. cells (ind_generators sd) c = Exhausted \<longrightarrow> cells (ind_generators sd') c = Exhausted)"
proof -
  from ok reach obtain r sd' where r: "get_sky_inds_and_prior sd dls = Inr (r, sd')"
    "physical_mask r = map (selected sd) dls"
    "length (sky_inds r) = length (filter (selected sd) dls)"
    "\<not> stop_iteration r"
    and cyc: "\<forall>c. same_cycle (cells (ind_generators sd) c) (cells (ind_generators sd') c)"
    and other: "\<forall>c. c \<notin> cell_of sd ` set (filter (selected sd) dls)
        \<longrightarrow> cells (ind_generators sd') c = cells (ind_generators sd) c"
    and cons: "consistent sd"
    by (rule query_properties)
  have a: "\<forall>c. cells (ind_generators sd') c \<noteq> cells (ind_generators sd) c \<longrightarrow>
             (\<exists>q\<in>set dls. within_range sd q \<and> 0 < prior_at sd q \<and> c = cell_of sd q)"
  proof (intro allI impI)
    fix c assume "cells (ind_generators sd') c \<noteq> cells (ind_generators sd) c"
    then have "c \<in> cell_of sd ` set (filter (selected sd) dls)" using other by blast
    then show "\<exists>q\<in>set dls. within_range sd q \<and> 0 < prior_at sd q \<and> c = cell_of sd q"
      by (auto simp: selected_def)
  qed
  have b: "\<forall>q\<in>set dls. within_range sd q \<and> 0 < prior_at sd q \<longrightarrow>
             cells (ind_generators sd) (cell_of sd q) \<noteq> Exhausted"
  proof (intro ballI impI)
    fix q assume "q \<in> set dls" "within_range sd q \<and> 0 < prior_at sd q"
    then have "selected sd q" by (simp add: selected_def)
    from selected_live[OF cons this] show "cells (ind_generators sd) (cell_of sd q) \<noteq> Exhausted"
      by (auto simp: live_def)
  qed
  have c: "\<forall>c. cells (ind_generators sd) c = Exhausted \<longrightarrow> cells (ind_generators sd') c = Exhausted"
  proof (intro allI impI)
    fix c assume "cells (ind_generators sd) c = Exhausted"
    then show "cells (ind_generators sd') c = Exhausted"
      using cyc[rule_format, of c] by (simp add: same_cycle_def)
  qed
  show ?thesis using r a b c by (simp add: length_filter_id_map)
qed

theorem query_mask_and_prior_witness:
  "\<exists>r sd'. get_sky_inds_and_prior ex_sd [[0], [5], [- 1], [- 2]] = Inr (r, sd')
     \<and> physical_mask r = [True, False, False, True]
     \<and> sky_prior r = [1 / 2, 1 / 4]
     \<and> length (sky_inds r) = 2"
proof -
  have p: "(0::int) < 1" "(0::int) < 4" by simp_all
  have w: "within_range ex_sd [0]" "\<not> within_range ex_sd [5]" "within_range ex_sd [- 1]"
    "within_range ex_sd [- 2]"
    by (simp_all add: within_range_def ex_min_max)
  from query_mask_and_prior[OF ex_init p ex_query_seq_Nil, of "[[0], [5], [- 1], [- 2]]"]
  obtain r sd' where g: "get_sky_inds_and_prior ex_sd [[0], [5], [- 1], [- 2]] = Inr (r, sd')"
    and m: "physical_mask r
        = map (\<lambda>q. within_range ex_sd q \<and> prior_at ex_sd q \<noteq> 0) [[0], [5], [- 1], [- 2]]"
    and li: "length (sky_inds r) = length (filter id (physical_mask r))"
    and sp: "sky_prior r = map (prior_at ex_sd)
        (filter (\<lambda>q. within_range ex_sd q \<and> prior_at ex_sd q \<noteq> 0) [[0], [5], [- 1], [- 2]])"
    by blast
  have m': "physical_mask r = [True, False, False, True]" using m by (simp add: w ex_prior_at)
  have sp': "sky_prior r = [1 / 2, 1 / 4]" using sp by (simp add: w ex_prior_at)
  have "length (sky_inds r) = 2" using li m' by simp
  then show ?thesis using g m' sp' by blast
qed

theorem no_cursor_exhaustion_witness:
  "\<exists>r sd'. get_sky_inds_and_prior ex_sd [[- 1], [0], [7], [0], [0]] = Inr (r, sd')
     \<and> \<not> stop_iteration r
     \<and> length (sky_inds r) = length (filter id (physical_mask r))
     \<and> cells (ind_generators ex_sd) [3] = Exhausted
     \<and> cells (ind_generators sd') [3] = Exhausted"
proof -
  have r: "within_range ex_sd [- 1]" by (simp add: within_range_def ex_min_max)
  have w: "wrap_cell (min_delay ex_sd) (max_delay ex_sd) [- 1] = [3]"
    by (simp add: wrap_cell_def ex_min_max dense_shape_def)
  have c0: "consistent ex_sd" using init_fresh(1)[OF ex_init] .
  have n3: "norm_key (dense_shape (min_delay ex_sd) (max_delay ex_sd)) [- 1] = Some [3]"
    by (simp add: ex_min_max dense_shape_def norm_index_def)
  have mo: "map_of (delays2inds_map ex_sd) [- 1] = None" by (simp add: ex_delays2inds_map)
  have "cell_state ex_sd [- 1] (cell_of ex_sd [- 1])"
    using consistent_within_cell(2)[OF c0 r] .
  then have e: "cells (ind_generators ex_sd) [3] = Exhausted"
    using n3 mo by (simp add: cell_state_def cell_of_def)
  from no_cursor_exhaustion[OF ex_init ex_query_seq_Nil, of "[[- 1], [0], [7], [0], [0]]"]
  obtain r sd' where g: "get_sky_inds_and_prior ex_sd [[- 1], [0], [7], [0], [0]] = Inr (r, sd')"
    and a: "\<not> stop_iteration r" "length (sky_inds r) = length (filter id (physical_mask r))"
    and k: "\<forall>c. cells (ind_generators ex_sd) c = Exhausted \<longrightarrow> cells (ind_generators sd') c = Exhausted"
    by blast
  have "cells (ind_generators sd') [3] = Exhausted" using k e by blast
  then show ?thesis using g a e by blast
qed

text \<open>Claim C10, as stated, fails: with a sample count of zero \<^verbatim>\<open>__init__\<close> raises only at the
  minimum over the keys of the index, after the sky samples, the antenna coefficients,
  the delays and the index have been assigned; and for a network of one detector with four
  samples and \<open>f_sampling = 1\<close> it raises the same error instead of succeeding.\<close>

theorem construction_counterexample:
  "init [''H'', ''L''] 1 0 [] [] [[], []]
     = Inl (ValueError, [Sky_samples, Fplus_fcross_0, Geocenter_delay_first_det, Delays,
                         Delays2inds_map])
   \<and> init [''H''] 1 4 ex_samples ex_fpfc [[0, 0, 0, 0]]
     = Inl (ValueError, [Sky_samples, Fplus_fcross_0, Geocenter_delay_first_det, Delays,
                         Delays2inds_map])"
  by (simp add: init_def Let_def create_delays2inds_map_def zip_star_def amin_axis0_def)

text \<open>Claim C10, amended: \<^verbatim>\<open>__init__\<close> checks nothing before it builds. Given one row of
  \<open>nsky\<close> geocenter delays per detector, a sample count of zero or a network of a single
  detector makes it raise ValueError once the sky samples, the antenna coefficients, the
  delays and the (empty) index have been assigned. For a network of at least two
  detectors and a positive sample count such that on every delay axis some sample has a
  discretized delay \<open>\<le> 0\<close> and some sample one \<open>\<ge> - 1\<close>, construction succeeds and
  assigns every attribute.\<close>

theorem construction_outcome:
  assumes rows: "length gd = length names" and rect: "\<forall>row\<in>set gd. int (length row) = n"
  shows "(names \<noteq> [] \<and> (n = 0 \<or> length names = 1) \<longrightarrow>
            init names f n samples fpfc gd = Inl (ValueError, built_before_min))
       \<and> (2 \<le> length names \<and> 0 < n \<and> spans_origin (sample_keys f gd) (length names - 1) \<longrightarrow>
            (\<exists>sd. init names f n samples fpfc gd = Inr sd
               \<and> detector_names sd = names \<and> nsky sd = n \<and> f_sampling sd = f
               \<and> fplus_fcross_0 sd = fpfc
               \<and> delays2inds_map sd = build 0 (sample_keys f gd) []
               \<and> length (delays_prior sd) = length (detector_orders (length names))
               \<and> shape (ind_generators sd) = dense_shape (min_delay sd) (max_delay sd)
               \<and> shape (dense_sky_prior sd) = dense_shape (min_delay sd) (max_delay sd)))"
proof (intro conjI impI)
  assume a: "names \<noteq> [] \<and> (n = 0 \<or> length names = 1)"
  then obtain g0 rest where gd: "gd = g0 # rest" using rows by (cases gd) auto
  have "\<forall>r\<in>set rest. r = [] \<or> g0 = []"
  proof (cases "n = 0")
    case True
    then show ?thesis using rect gd by auto
  next
    case False
    then have "rest = []" using a rows gd by auto
    then show ?thesis by simp
  qed
  with gd show "init names f n samples fpfc gd = Inl (ValueError, built_before_min)"
    by (rule init_empty_index)
next
  assume a: "2 \<le> length names \<and> 0 < n \<and> spans_origin (sample_keys f gd) (length names - 1)"
  have r: "\<forall>row\<in>set gd. length row = nat n" using rect by auto
  have g2: "2 \<le> length gd" using a rows by simp
  have m0: "0 < nat n" and n0: "n \<noteq> 0" using a by simp_all
  have sp: "spans_origin (sample_keys f gd) (length gd - 1)" using a rows by simp
  have "\<exists>sd. init names f n samples fpfc gd = Inr sd"
    using g2 rows[symmetric] r m0 n0 sp by (rule init_succeeds)
  then obtain sd where ok: "init names f n samples fpfc gd = Inr sd" by blast
  from ok obtain entries where
    e: "sequence (map (delays_prior_entry f gd (antenna_weights fpfc))
       (detector_orders (length names))) = Inr entries"
    and dp: "delays_prior sd = zip (detector_orders (length names)) (map fst entries)"
    and fl: "detector_names sd = names" "nsky sd = n" "f_sampling sd = f" "fplus_fcross_0 sd = fpfc"
    by (rule init_InrE)
  have le: "length entries = length (detector_orders (length names))"
    using e by (rule sequence_length)
  have c: "consistent sd" using init_fresh(1)[OF ok] .
  show "\<exists>sd. init names f n samples fpfc gd = Inr sd
               \<and> detector_names sd = names \<and> nsky sd = n \<and> f_sampling sd = f
               \<and> fplus_fcross_0 sd = fpfc
               \<and> delays2inds_map sd = build 0 (sample_keys f gd) []
               \<and> length (delays_prior sd) = length (detector_orders (length names))
               \<and> shape (ind_generators sd) = dense_shape (min_delay sd) (max_delay sd)
               \<and> shape (dense_sky_prior sd) = dense_shape (min_delay sd) (max_delay sd)"
    using ok fl init_sample_keys(1)[OF ok] consistent_shapes[OF c] dp le by auto
qed

theorem construction_outcome_witness:
  "init [''H'', ''L''] 1 0 [] [] [[], []] = Inl (ValueError, built_before_min)
   \<and> (\<exists>sd. init ex_names 1 4 ex_samples ex_fpfc ex_gd = Inr sd
          \<and> detector_names sd = ex_names \<and> nsky sd = 4 \<and> f_sampling sd = 1)"
proof -
  have a: "init [''H'', ''L''] 1 0 [] [] [[], []] = Inl (ValueError, built_before_min)"
    using construction_outcome[where gd = "[[], []]" and names = "[''H'', ''L'']" and n = 0
        and f = 1 and samples = "[]" and fpfc = "[]"]
    by simp
  have l: "length ex_gd = length ex_names" by (simp add: ex_gd_def ex_names_def)
  have r: "\<forall>row\<in>set ex_gd. int (length row) = 4" by (simp add: ex_gd_def)
  have s: "spans_origin (sample_keys 1 ex_gd) (length ex_names - 1)"
    by (simp add: ex_sample_keys spans_origin_def ex_names_def)
  have n2: "2 \<le> length ex_names" by (simp add: ex_names_def)
  have "\<exists>sd. init ex_names 1 4 ex_samples ex_fpfc ex_gd = Inr sd
          \<and> detector_names sd = ex_names \<and> nsky sd = 4 \<and> f_sampling sd = 1"
    using construction_outcome[OF l r, where f = 1 and samples = ex_samples and fpfc = ex_fpfc]
      s n2 by auto
  with a show ?thesis by (rule conjI)
qed




text \<open>Claim C3, as stated, fails for an ordering of a proper subset of the network: with three
  detectors and one sample whose antenna coefficients are \<open>(3, 0)\<close>, \<open>(0, 0)\<close> and \<open>(4, 0)\<close>,
  the sample enters the histogram of the ordering \<open>(0, 1)\<close> with the weight \<open>125 = 5\<^sup>3\<close>
  that \<^verbatim>\<open>__init__\<close> computes once from the coefficients of all three detectors, while the
  coefficients of the detectors 0 and 1 alone give \<open>27 = 3\<^sup>3\<close>.\<close>

theorem subset_weights_counterexample:
  "init ex3_names 1 1 [(0, 0)] ex3_fpfc ex3_gd = Inr ex3_sd
   \<and> antenna_weights ex3_fpfc = [125]
   \<and> cells (the (map_of (delays_prior ex3_sd) [0, 1])) [0] = 125
   \<and> subset_weight (ex3_fpfc ! 0) [0, 1] = 27"
proof -
  obtain h where "map_of (delays_prior ex3_sd) [0, 1] = Some h" "cells h [0] = 125"
    by (rule ex3_cell)
  then have "cells (the (map_of (delays_prior ex3_sd) [0, 1])) [0] = 125" by simp
  then show ?thesis using ex3_init ex3_weights ex3_subset_weight by simp
qed

text \<open>Claim C3, amended: for every ordering of \<open>k \<ge> 2\<close> detector indices, the histogram
  stored for it has \<open>k - 1\<close> axes and each of its cells holds the sum, over the samples in
  the cell's bin, of one weight per sample: the cube of the Frobenius norm of all the
  antenna-response coefficients of the sample, those of every detector of the network,
  whichever detectors the ordering names. For an ordering of the whole network (and
  coefficients for exactly the detectors of the network) that weight is the cube of the
  norm of the coefficients of the ordering's detectors.\<close>

theorem delays_prior_weights:
  assumes ok: "init names f n samples fpfc gd = Inr sd"
    and order: "order \<in> set (detector_orders (length names))"
  shows "2 \<le> length order
       \<and> (\<exists>h pd mins maxs. map_of (delays_prior sd) order = Some h
            \<and> pairwise_delays f gd order = Inr pd
            \<and> sequence (map amin pd) = Inr mins \<and> sequence (map amax pd) = Inr maxs
            \<and> length (shape h) = length order - 1
            \<and> (\<forall>c. cells h c = sum_list (map snd (filter
                  (\<lambda>(x, w). sample_bin (map2 bin_edges (map (\<lambda>m. m - 1) mins)
                                                       (map (\<lambda>m. m + 1) maxs)) x = Some c)
                  (zip (zip_star pd) (map (\<lambda>m. frobenius_norm m ^ 3) fpfc))))))
       \<and> (length order = length names \<longrightarrow>
            (\<forall>m\<in>set fpfc. length m = length names \<longrightarrow>
               frobenius_norm m ^ 3 = subset_weight m order))"
proof -
  from ok order obtain pd mins maxs where pd: "pairwise_delays f gd order = Inr pd"
    and mins: "sequence (map amin pd) = Inr mins" and maxs: "sequence (map amax pd) = Inr maxs"
    and h: "map_of (delays_prior sd) order
       = Some (histogramdd (zip_star pd) (antenna_weights fpfc)
           (map2 bin_edges (map (\<lambda>m. m - 1) mins) (map (\<lambda>m. m + 1) maxs)))"
    by (rule init_delays_prior)
  let ?bins = "map2 bin_edges (map (\<lambda>m. m - 1) mins) (map (\<lambda>m. m + 1) maxs)"
  let ?h = "histogramdd (zip_star pd) (antenna_weights fpfc) ?bins"
  have l: "length mins = length pd" "length maxs = length pd"
    using sequence_length[OF mins] sequence_length[OF maxs] by simp_all
  have "length (shape ?h) = length pd" using l by (simp add: histogramdd_def)
  then have sh: "length (shape ?h) = length order - 1" using pairwise_delays_length[OF pd] by simp
  have ce: "\<forall>c. cells ?h c = sum_list (map snd (filter (\<lambda>(x, w). sample_bin ?bins x = Some c)
                  (zip (zip_star pd) (map (\<lambda>m. frobenius_norm m ^ 3) fpfc))))"
    by (simp add: histogramdd_def antenna_weights_def)
  have two: "2 \<le> length order" using detector_orders_set[OF order] by simp
  have full: "length order = length names \<longrightarrow>
            (\<forall>m\<in>set fpfc. length m = length names \<longrightarrow>
               frobenius_norm m ^ 3 = subset_weight m order)"
  proof (intro impI ballI)
    fix m :: "real list list"
    assume lo: "length order = length names" and lm: "length m = length names"
    have "order \<in> set (permutations [0..<length names] (length names))"
      using order lo by (rule detector_orders_full)
    then have "order \<in> set (permutations [0..<length m] (length m))" by (simp only: lm)
    then have "frobenius_norm (map ((!) m) order) = frobenius_norm m"
      by (rule frobenius_norm_permute)
    then show "frobenius_norm m ^ 3 = subset_weight m order" by (simp add: subset_weight_def)
  qed
  have "\<exists>h pd mins maxs. map_of (delays_prior sd) order = Some h
            \<and> pairwise_delays f gd order = Inr pd
            \<and> sequence (map amin pd) = Inr mins \<and> sequence (map amax pd) = Inr maxs
            \<and> length (shape h) = length order - 1
            \<and> (\<forall>c. cells h c = sum_list (map snd (filter
                  (\<lambda>(x, w). sample_bin (map2 bin_edges (map (\<lambda>m. m - 1) mins)
                                                       (map (\<lambda>m. m + 1) maxs)) x = Some c)
                  (zip (zip_star pd) (map (\<lambda>m. frobenius_norm m ^ 3) fpfc)))))"
    using h pd mins maxs sh ce by blast
  with two full show ?thesis by blast
qed

theorem delays_prior_weights_witness:
  "(\<exists>h. map_of (delays_prior ex3_sd) [0, 1] = Some h \<and> length (shape h) = 1 \<and> cells h [0] = 125)
   \<and> subset_weight (ex3_fpfc ! 0) [2, 0, 1] = 125"
proof -
  have l3: "length ex3_names = 3" by (simp add: ex3_names_def)
  have o: "[0, 1] \<in> set (detector_orders (length ex3_names))"
    using ex3_orders(1) by (simp only: l3)
  have o': "[2, 0, 1] \<in> set (detector_orders (length ex3_names))"
    using ex3_orders(2) by (simp only: l3)
  from delays_prior_weights[OF ex3_init o]
  obtain h pd mins maxs where h: "map_of (delays_prior ex3_sd) [0, 1] = Some h"
    and pd: "pairwise_delays 1 ex3_gd [0, 1] = Inr pd"
    and mins: "sequence (map amin pd) = Inr mins" and maxs: "sequence (map amax pd) = Inr maxs"
    and sh: "length (shape h) = length [0::nat, 1] - 1"
    and ce: "\<forall>c. cells h c = sum_list (map snd (filter
                  (\<lambda>(x, w). sample_bin (map2 bin_edges (map (\<lambda>m. m - 1) mins)
                                                       (map (\<lambda>m. m + 1) maxs)) x = Some c)
                  (zip (zip_star pd) (map (\<lambda>m. frobenius_norm m ^ 3) ex3_fpfc))))"
    by blast
  have p: "pd = [[0]]" using pd unfolding ex3_pairwise by simp
  have mn: "mins = [0]" using mins by (simp add: p amin_def)
  have mx: "maxs = [0]" using maxs by (simp add: p amax_def)
  have z: "zip_star [[0::int]] = [[0]]" by (simp add: zip_star_def)
  have w: "map (\<lambda>m. frobenius_norm m ^ 3) ex3_fpfc = [125]"
    using ex3_weights by (simp add: antenna_weights_def)
  have c: "cells h [0] = 125"
    using ce[rule_format, of "[0]"] unfolding p mn mx z ex3_bins w
    by (simp add: ex3_sample_bin)
  from delays_prior_weights[OF ex3_init o']
  have "length [2::nat, 0, 1] = length ex3_names \<longrightarrow>
            (\<forall>m\<in>set ex3_fpfc. length m = length ex3_names \<longrightarrow>
               frobenius_norm m ^ 3 = subset_weight m [2, 0, 1])"
    by blast
  then have "frobenius_norm (ex3_fpfc ! 0) ^ 3 = subset_weight (ex3_fpfc ! 0) [2, 0, 1]"
    by (simp add: l3 ex3_fpfc_def)
  moreover have "frobenius_norm (ex3_fpfc ! 0) ^ 3 = 125"
    using w by (simp add: ex3_fpfc_def)
  ultimately have s: "subset_weight (ex3_fpfc ! 0) [2, 0, 1] = 125" by simp
  have sh1: "length (shape h) = 1" using sh by simp
  show ?thesis using h sh1 c s by blast
qed

end
